theory Spec2Isabelle
  imports Main "HOL-Library.Word"
begin

section \<open>Machine types\<close>

text \<open>
  \<open>size_t\<close> and object addresses are 64-bit unsigned machine words (an LP64 target):
  \<open>+\<close>, \<open>-\<close> and \<open>*\<close> wrap modulo \<open>2 ^ 64\<close>, as unsigned arithmetic does in C++.
  \<open>sizeof(T)\<close> and \<open>alignof(T)\<close> are compile-time constants of the element type; the model
  takes them as a record.
\<close>

type_synonym size_t = "64 word"
type_synonym addr = "64 word"

record ctype =
  sizeof :: size_t
  alignof :: size_t

text \<open>The exceptions of the program: \<open>std::bad_alloc\<close> and whatever an element type throws.\<close>

datatype error = bad_alloc | thrown nat

section \<open>StackStorage and StackAllocator\<close>

text \<open>
  \<open>struct StackStorage { int8_t data[N]; size_t size; }\<close>. The allocator uses \<open>data\<close> only
  in pointer arithmetic and never reads or writes the bytes, so the record holds the address
  of \<open>data[0]\<close> and the cursor \<open>size\<close>. The capacity \<open>N\<close> is a template parameter and
  becomes an argument.
\<close>

record StackStorage =
  st_data :: addr
  st_size :: size_t

text \<open>Lines 40-43 of \<open>allocate\<close>: the local \<open>padding\<close>.\<close>

definition padding_of :: "ctype \<Rightarrow> StackStorage \<Rightarrow> size_t" where
  "padding_of T s =
     (let padding = st_size s mod alignof T
      in if padding > 0 then alignof T - padding else padding)"

text \<open>
  \<open>T* allocate(size_t count) const\<close>. The \<open>throw\<close> leaves the storage as it is at that
  point, which the model returns next to the error.
\<close>

definition allocate :: "size_t \<Rightarrow> ctype \<Rightarrow> size_t \<Rightarrow> StackStorage \<Rightarrow> (error + addr) \<times> StackStorage" where
  "allocate N T count s =
     (let padding = padding_of T s
      in if st_size s + count * sizeof T + padding > N then (Inl bad_alloc, s)
         else
           let s1 = s\<lparr>st_size := st_size s + padding\<rparr>;
               tmp = st_data s1 + st_size s1;
               s2 = s1\<lparr>st_size := st_size s1 + count * sizeof T\<rparr>
           in (Inr tmp, s2))"

text \<open>
  \<open>void deallocate(T* ptr, size_t count) const\<close>: \<open>ptr + count\<close> is pointer arithmetic on
  \<open>T*\<close>, that is \<open>count * sizeof(T)\<close> bytes.
\<close>

definition deallocate :: "ctype \<Rightarrow> addr \<Rightarrow> size_t \<Rightarrow> StackStorage \<Rightarrow> StackStorage" where
  "deallocate T ptr count s =
     (if ptr + count * sizeof T = st_data s + st_size s
      then s\<lparr>st_size := st_size s - count * sizeof T\<rparr>
      else s)"

text \<open>A sequence of \<open>allocate\<close> calls on one storage, stopping at the first failure.\<close>

fun allocate_all :: "size_t \<Rightarrow> (ctype \<times> size_t) list \<Rightarrow> StackStorage \<Rightarrow> (error + addr list) \<times> StackStorage" where
  "allocate_all N [] s = (Inr [], s)"
| "allocate_all N ((T, count) # rs) s =
     (case allocate N T count s of
        (Inl e, s') \<Rightarrow> (Inl e, s')
      | (Inr p, s') \<Rightarrow>
          (case allocate_all N rs s' of
             (Inl e, s'') \<Rightarrow> (Inl e, s'')
           | (Inr ps, s'') \<Rightarrow> (Inr (p # ps), s'')))"

text \<open>
  The exact (unbounded) size of a request sequence from cursor \<open>u\<close>: each request is
  preceded by the padding that aligns it.
\<close>

definition pad_nat :: "nat \<Rightarrow> nat \<Rightarrow> nat" where
  "pad_nat a u = (if u mod a = 0 then 0 else a - u mod a)"

fun aligned_total :: "nat \<Rightarrow> (ctype \<times> size_t) list \<Rightarrow> nat" where
  "aligned_total u [] = u"
| "aligned_total u ((T, count) # rs) =
     aligned_total (u + pad_nat (unat (alignof T)) u + unat count * unat (sizeof T)) rs"

section \<open>List\<close>

subsection \<open>Objects, the store and the collaborators\<close>

text \<open>
  \<open>struct BaseNode { BaseNode* prev; BaseNode* next; }\<close> and
  \<open>struct Node : BaseNode { T key; }\<close>. Nodes point at each other and at the sentinel
  inside the list object, so the objects live in a store: \<open>links\<close> holds the
  \<open>BaseNode\<close> part of every live node and sentinel, \<open>keys\<close> the \<open>key\<close> of every live
  \<open>Node\<close>. \<open>mem\<close> is the state behind the allocator (for \<open>StackAllocator\<close> the
  \<open>StackStorage\<close>), \<open>world\<close> whatever the element type's constructors and destructor act
  on (a static counter, say). \<open>trace\<close> records the calls made through \<open>NodeTraits\<close>.
\<close>

record BaseNode =
  prev :: addr
  "next" :: addr

datatype event = Allocate addr | Construct addr | Destroy addr | Deallocate addr

record ('a, 'm, 'w) heap =
  mem :: 'm
  world :: 'w
  links :: "addr \<Rightarrow> BaseNode option"
  keys :: "addr \<Rightarrow> 'a option"
  trace :: "event list"

text \<open>
  A call either returns, or throws a C++ exception, or has undefined behaviour (a read
  through a pointer to no live object, a cast of the sentinel to \<open>Node*\<close>).
  \<open>catch (...)\<close> catches the exceptions only.
\<close>

datatype fault = Exception error | Undefined

text \<open>
  The element type \<open>T\<close>: its copy constructor, default constructor and destructor.
  The allocator, after \<open>rebind_alloc<Node>\<close>: \<open>allocate(1)\<close>, \<open>deallocate(p, 1)\<close> and
  \<open>propagate_on_container_copy_assignment\<close>.
\<close>

record ('a, 'w) elem =
  copy_ctor :: "'a \<Rightarrow> 'w \<Rightarrow> (error + 'a) \<times> 'w"
  default_ctor :: "'w \<Rightarrow> (error + 'a) \<times> 'w"
  dtor :: "'a \<Rightarrow> 'w \<Rightarrow> 'w"

record 'm NodeAlloc =
  allocate_node :: "'m \<Rightarrow> (error + addr) \<times> 'm"
  deallocate_node :: "addr \<Rightarrow> 'm \<Rightarrow> 'm"
  pocca :: bool

text \<open>\<open>StackAllocator<Node, N>\<close> as such an allocator; it does not declare the propagation trait.\<close>

definition StackAllocator :: "size_t \<Rightarrow> ctype \<Rightarrow> StackStorage NodeAlloc" where
  "StackAllocator N T =
     \<lparr>allocate_node = allocate N T 1, deallocate_node = (\<lambda>p. deallocate T p 1), pocca = False\<rparr>"

text \<open>
  The list object: \<open>alloc\<close>, \<open>data\<close> and \<open>sz\<close>. The sentinel \<open>data\<close> is a \<open>BaseNode\<close>
  that nodes point to, so its fields are in the store and the record holds its address
  \<open>&data\<close>.
\<close>

record 'm List =
  alloc :: "'m NodeAlloc"
  data :: addr
  sz :: size_t

subsection \<open>NodeTraits\<close>

definition traits_allocate :: "'m NodeAlloc \<Rightarrow> ('a, 'm, 'w) heap \<Rightarrow> (error + addr) \<times> ('a, 'm, 'w) heap" where
  "traits_allocate A h =
     (case allocate_node A (mem h) of
        (Inl e, m) \<Rightarrow> (Inl e, h\<lparr>mem := m\<rparr>)
      | (Inr p, m) \<Rightarrow> (Inr p, h\<lparr>mem := m, trace := trace h @ [Allocate p]\<rparr>))"

definition traits_deallocate :: "'m NodeAlloc \<Rightarrow> addr \<Rightarrow> ('a, 'm, 'w) heap \<Rightarrow> ('a, 'm, 'w) heap" where
  "traits_deallocate A p h =
     h\<lparr>mem := deallocate_node A p (mem h), trace := trace h @ [Deallocate p]\<rparr>"

text \<open>
  \<open>construct(alloc, it, prev, next, value)\<close> runs \<open>Node(prev, next, key)\<close> at \<open>it\<close>:
  the base is initialised, then \<open>key\<close> is copy-constructed, which may throw. Storage that
  still holds a live object is not storage for a new one.
\<close>

definition traits_construct ::
  "('a, 'w) elem \<Rightarrow> addr \<Rightarrow> addr \<Rightarrow> addr \<Rightarrow> 'a \<Rightarrow> ('a, 'm, 'w) heap \<Rightarrow> (fault + unit) \<times> ('a, 'm, 'w) heap" where
  "traits_construct E it p n v h =
     (if links h it \<noteq> None \<or> keys h it \<noteq> None then (Inl Undefined, h)
      else case copy_ctor E v (world h) of
             (Inl e, w) \<Rightarrow> (Inl (Exception e), h\<lparr>world := w\<rparr>)
           | (Inr k, w) \<Rightarrow>
               (Inr (), h\<lparr>world := w, links := (links h)(it \<mapsto> \<lparr>prev = p, next = n\<rparr>),
                          keys := (keys h)(it \<mapsto> k), trace := trace h @ [Construct it]\<rparr>))"

text \<open>\<open>construct(alloc, it, prev, next)\<close> runs \<open>Node(prev, next)\<close>, with \<open>key()\<close>.\<close>

definition traits_construct_default ::
  "('a, 'w) elem \<Rightarrow> addr \<Rightarrow> addr \<Rightarrow> addr \<Rightarrow> ('a, 'm, 'w) heap \<Rightarrow> (fault + unit) \<times> ('a, 'm, 'w) heap" where
  "traits_construct_default E it p n h =
     (if links h it \<noteq> None \<or> keys h it \<noteq> None then (Inl Undefined, h)
      else case default_ctor E (world h) of
             (Inl e, w) \<Rightarrow> (Inl (Exception e), h\<lparr>world := w\<rparr>)
           | (Inr k, w) \<Rightarrow>
               (Inr (), h\<lparr>world := w, links := (links h)(it \<mapsto> \<lparr>prev = p, next = n\<rparr>),
                          keys := (keys h)(it \<mapsto> k), trace := trace h @ [Construct it]\<rparr>))"

text \<open>\<open>destroy(alloc, static_cast<Node*>(it))\<close> runs \<open>~Node()\<close>; \<open>it\<close> must be a \<open>Node\<close>.\<close>

definition traits_destroy :: "('a, 'w) elem \<Rightarrow> addr \<Rightarrow> ('a, 'm, 'w) heap \<Rightarrow> ('a, 'm, 'w) heap option" where
  "traits_destroy E it h =
     (case keys h it of
        None \<Rightarrow> None
      | Some k \<Rightarrow>
          Some (h\<lparr>world := dtor E k (world h), links := (links h)(it := None),
                  keys := (keys h)(it := None), trace := trace h @ [Destroy it]\<rparr>))"

subsection \<open>Field access through pointers\<close>

definition set_next :: "addr \<Rightarrow> addr \<Rightarrow> ('a, 'm, 'w) heap \<Rightarrow> ('a, 'm, 'w) heap option" where
  "set_next p v h =
     (case links h p of None \<Rightarrow> None | Some b \<Rightarrow> Some (h\<lparr>links := (links h)(p \<mapsto> b\<lparr>next := v\<rparr>)\<rparr>))"

definition set_prev :: "addr \<Rightarrow> addr \<Rightarrow> ('a, 'm, 'w) heap \<Rightarrow> ('a, 'm, 'w) heap option" where
  "set_prev p v h =
     (case links h p of None \<Rightarrow> None | Some b \<Rightarrow> Some (h\<lparr>links := (links h)(p \<mapsto> b\<lparr>prev := v\<rparr>)\<rparr>))"

text \<open>Iterators hold \<open>item\<close>; \<open>operator*\<close>, \<open>operator++\<close> and \<open>operator--\<close>.\<close>

definition deref :: "('a, 'm, 'w) heap \<Rightarrow> addr \<Rightarrow> 'a option" where
  "deref h item = keys h item"

definition incr :: "('a, 'm, 'w) heap \<Rightarrow> addr \<Rightarrow> addr option" where
  "incr h item = map_option next (links h item)"

definition decr :: "('a, 'm, 'w) heap \<Rightarrow> addr \<Rightarrow> addr option" where
  "decr h item = map_option prev (links h item)"

definition begin_L :: "'m List \<Rightarrow> ('a, 'm, 'w) heap \<Rightarrow> addr option" where
  "begin_L L h = map_option next (links h (data L))"

definition end_L :: "'m List \<Rightarrow> addr" where
  "end_L L = data L"

definition size_L :: "'m List \<Rightarrow> size_t" where
  "size_L L = sz L"

subsection \<open>insert, erase and the push and pop operations\<close>

text \<open>
  \<open>iterator insert(const_iterator iter, const T& value)\<close>, lines 301-314: allocate,
  construct with the links \<open>iter.item->prev\<close> and \<open>iter.item\<close> (on an exception deallocate
  and rethrow), then \<open>iter.item->prev->next = it; iter.item->prev = it; ++sz\<close>. Each
  access through a pointer reads the store as the statements before it left it.
\<close>

definition insert_L ::
  "('a, 'w) elem \<Rightarrow> addr \<Rightarrow> 'a \<Rightarrow> 'm List \<Rightarrow> ('a, 'm, 'w) heap \<Rightarrow> (fault + addr) \<times> 'm List \<times> ('a, 'm, 'w) heap" where
  "insert_L E iter v L h =
     (case traits_allocate (alloc L) h of
        (Inl e, h1) \<Rightarrow> (Inl (Exception e), L, h1)
      | (Inr it, h1) \<Rightarrow>
          (case links h1 iter of
             None \<Rightarrow> (Inl Undefined, L, h1)
           | Some b \<Rightarrow>
               (case traits_construct E it (prev b) iter v h1 of
                  (Inl (Exception e), h2) \<Rightarrow> (Inl (Exception e), L, traits_deallocate (alloc L) it h2)
                | (Inl Undefined, h2) \<Rightarrow> (Inl Undefined, L, h2)
                | (Inr _, h2) \<Rightarrow>
                    (case links h2 iter of
                       None \<Rightarrow> (Inl Undefined, L, h2)
                     | Some b2 \<Rightarrow>
                         (case set_next (prev b2) it h2 of
                            None \<Rightarrow> (Inl Undefined, L, h2)
                          | Some h3 \<Rightarrow>
                              (case set_prev iter it h3 of
                                 None \<Rightarrow> (Inl Undefined, L, h3)
                               | Some h4 \<Rightarrow> (Inr it, L\<lparr>sz := sz L + 1\<rparr>, h4)))))))"

text \<open>\<open>void emplace_back()\<close>, lines 87-99: the same at \<open>&data\<close>, with \<open>key()\<close>.\<close>

definition emplace_back ::
  "('a, 'w) elem \<Rightarrow> 'm List \<Rightarrow> ('a, 'm, 'w) heap \<Rightarrow> (fault + unit) \<times> 'm List \<times> ('a, 'm, 'w) heap" where
  "emplace_back E L h =
     (case traits_allocate (alloc L) h of
        (Inl e, h1) \<Rightarrow> (Inl (Exception e), L, h1)
      | (Inr it, h1) \<Rightarrow>
          (case links h1 (data L) of
             None \<Rightarrow> (Inl Undefined, L, h1)
           | Some b \<Rightarrow>
               (case traits_construct_default E it (prev b) (data L) h1 of
                  (Inl (Exception e), h2) \<Rightarrow> (Inl (Exception e), L, traits_deallocate (alloc L) it h2)
                | (Inl Undefined, h2) \<Rightarrow> (Inl Undefined, L, h2)
                | (Inr _, h2) \<Rightarrow>
                    (case links h2 (data L) of
                       None \<Rightarrow> (Inl Undefined, L, h2)
                     | Some b2 \<Rightarrow>
                         (case set_next (prev b2) it h2 of
                            None \<Rightarrow> (Inl Undefined, L, h2)
                          | Some h3 \<Rightarrow>
                              (case set_prev (data L) it h3 of
                                 None \<Rightarrow> (Inl Undefined, L, h3)
                               | Some h4 \<Rightarrow> (Inr (), L\<lparr>sz := sz L + 1\<rparr>, h4)))))))"

text \<open>
  \<open>iterator erase(const_iterator iter)\<close>, lines 316-325: \<open>it = iter.item->next;
  it->prev = iter.item->prev; iter.item->prev->next = it\<close>, then destroy and deallocate
  the node and \<open>--sz\<close>.
\<close>

definition erase ::
  "('a, 'w) elem \<Rightarrow> addr \<Rightarrow> 'm List \<Rightarrow> ('a, 'm, 'w) heap \<Rightarrow> (fault + addr) \<times> 'm List \<times> ('a, 'm, 'w) heap" where
  "erase E iter L h =
     (case links h iter of
        None \<Rightarrow> (Inl Undefined, L, h)
      | Some b \<Rightarrow>
          (let it = next b in
           case set_prev it (prev b) h of
             None \<Rightarrow> (Inl Undefined, L, h)
           | Some h1 \<Rightarrow>
               (case links h1 iter of
                  None \<Rightarrow> (Inl Undefined, L, h1)
                | Some b1 \<Rightarrow>
                    (case set_next (prev b1) it h1 of
                       None \<Rightarrow> (Inl Undefined, L, h1)
                     | Some h2 \<Rightarrow>
                         (case traits_destroy E iter h2 of
                            None \<Rightarrow> (Inl Undefined, L, h2)
                          | Some h3 \<Rightarrow>
                              (Inr it, L\<lparr>sz := sz L - 1\<rparr>, traits_deallocate (alloc L) iter h3))))))"

text \<open>
  \<open>push_back\<close>, \<open>pop_back\<close>, \<open>push_front\<close> and \<open>pop_front\<close>, lines 285-299, call
  \<open>insert(end(), value)\<close>, \<open>erase(--end())\<close>, \<open>insert(begin(), value)\<close> and
  \<open>erase(begin())\<close> and drop the iterator they return.
\<close>

definition drop_result :: "(fault + 'r) \<times> 'l \<times> 'h \<Rightarrow> (fault + unit) \<times> 'l \<times> 'h" where
  "drop_result r = (case r of (Inl f, L, h) \<Rightarrow> (Inl f, L, h) | (Inr _, L, h) \<Rightarrow> (Inr (), L, h))"

definition push_back ::
  "('a, 'w) elem \<Rightarrow> 'a \<Rightarrow> 'm List \<Rightarrow> ('a, 'm, 'w) heap \<Rightarrow> (fault + unit) \<times> 'm List \<times> ('a, 'm, 'w) heap" where
  "push_back E v L h = drop_result (insert_L E (end_L L) v L h)"

definition pop_back ::
  "('a, 'w) elem \<Rightarrow> 'm List \<Rightarrow> ('a, 'm, 'w) heap \<Rightarrow> (fault + unit) \<times> 'm List \<times> ('a, 'm, 'w) heap" where
  "pop_back E L h =
     (case decr h (end_L L) of
        None \<Rightarrow> (Inl Undefined, L, h)
      | Some it \<Rightarrow> drop_result (erase E it L h))"

definition push_front ::
  "('a, 'w) elem \<Rightarrow> 'a \<Rightarrow> 'm List \<Rightarrow> ('a, 'm, 'w) heap \<Rightarrow> (fault + unit) \<times> 'm List \<times> ('a, 'm, 'w) heap" where
  "push_front E v L h =
     (case begin_L L h of
        None \<Rightarrow> (Inl Undefined, L, h)
      | Some it \<Rightarrow> drop_result (insert_L E it v L h))"

definition pop_front ::
  "('a, 'w) elem \<Rightarrow> 'm List \<Rightarrow> ('a, 'm, 'w) heap \<Rightarrow> (fault + unit) \<times> 'm List \<times> ('a, 'm, 'w) heap" where
  "pop_front E L h =
     (case begin_L L h of
        None \<Rightarrow> (Inl Undefined, L, h)
      | Some it \<Rightarrow> drop_result (erase E it L h))"

subsection \<open>destroy, clear and the destructor\<close>

text \<open>
  The loop of \<open>destroy()\<close>. Every round ends the life of one \<open>Node\<close>, and a pointer to
  no live \<open>Node\<close> stops it, so the loop ends: the store holds finitely many objects.
\<close>

lemma traits_destroy_card:
  assumes "traits_destroy E it h = Some h1"
  shows "card (dom (keys (traits_deallocate A it h1))) < card (dom (keys h))"
proof -
  from assms obtain k where k: "keys h it = Some k" and h1: "keys h1 = (keys h)(it := None)"
    by (auto simp: traits_destroy_def split: option.splits)
  have "dom (keys h1) = dom (keys h) - {it}" by (simp add: h1)
  moreover have "it \<in> dom (keys h)" using k by auto
  ultimately have "card (dom (keys h1)) < card (dom (keys h))"
    using card_Diff1_less [of "dom (keys h)" it] by simp
  then show ?thesis by (simp add: traits_deallocate_def)
qed

function destroy_loop ::
  "('a, 'w) elem \<Rightarrow> 'm NodeAlloc \<Rightarrow> addr \<Rightarrow> addr \<Rightarrow> ('a, 'm, 'w) heap \<Rightarrow> (fault + unit) \<times> ('a, 'm, 'w) heap" where
  "destroy_loop E A s it h =
     (if it = s then (Inr (), h)
      else case links h it of
             None \<Rightarrow> (Inl Undefined, h)
           | Some b \<Rightarrow>
               (case traits_destroy E it h of
                  None \<Rightarrow> (Inl Undefined, h)
                | Some h1 \<Rightarrow> destroy_loop E A s (next b) (traits_deallocate A it h1)))"
  by pat_completeness auto
termination
  by (relation "measure (\<lambda>(E, A, s, it, h). card (dom (keys h)))")
     (auto simp: traits_destroy_card)

declare destroy_loop.simps [simp del]

text \<open>\<open>void destroy()\<close>, lines 101-109, starts the loop at \<open>data.next\<close>.\<close>

definition destroy :: "('a, 'w) elem \<Rightarrow> 'm List \<Rightarrow> ('a, 'm, 'w) heap \<Rightarrow> (fault + unit) \<times> ('a, 'm, 'w) heap" where
  "destroy E L h =
     (case links h (data L) of
        None \<Rightarrow> (Inl Undefined, h)
      | Some b \<Rightarrow> destroy_loop E (alloc L) (data L) (next b) h)"

text \<open>\<open>void clear()\<close>, lines 327-331: \<open>destroy(); data.prev = data.next = &data; sz = 0\<close>.\<close>

definition clear ::
  "('a, 'w) elem \<Rightarrow> 'm List \<Rightarrow> ('a, 'm, 'w) heap \<Rightarrow> (fault + unit) \<times> 'm List \<times> ('a, 'm, 'w) heap" where
  "clear E L h =
     (case destroy E L h of
        (Inl f, h1) \<Rightarrow> (Inl f, L, h1)
      | (Inr _, h1) \<Rightarrow>
          (case links h1 (data L) of
             None \<Rightarrow> (Inl Undefined, L, h1)
           | Some b \<Rightarrow>
               (Inr (), L\<lparr>sz := 0\<rparr>,
                h1\<lparr>links := (links h1)(data L \<mapsto> \<lparr>prev = data L, next = data L\<rparr>)\<rparr>)))"

text \<open>\<open>~List()\<close>: \<open>destroy()\<close>, after which the members, the sentinel among them, are gone.\<close>

definition List_dtor :: "('a, 'w) elem \<Rightarrow> 'm List \<Rightarrow> ('a, 'm, 'w) heap \<Rightarrow> (fault + unit) \<times> ('a, 'm, 'w) heap" where
  "List_dtor E L h =
     (case destroy E L h of
        (Inl f, h1) \<Rightarrow> (Inl f, h1)
      | (Inr _, h1) \<Rightarrow> (Inr (), h1\<lparr>links := (links h1)(data L := None)\<rparr>))"

subsection \<open>Constructors\<close>

text \<open>
  The member initialisers of a list constructed at address \<open>this\<close>: \<open>alloc(allocator)\<close>,
  \<open>data{&data, &data}\<close>, \<open>sz = 0\<close>. This is all of \<open>List()\<close> and \<open>List(allocator)\<close>.
\<close>

definition List_init :: "'m NodeAlloc \<Rightarrow> addr \<Rightarrow> ('a, 'm, 'w) heap \<Rightarrow> ('m List \<times> ('a, 'm, 'w) heap) option" where
  "List_init A this h =
     (if links h this \<noteq> None \<or> keys h this \<noteq> None then None
      else Some (\<lparr>alloc = A, data = this, sz = 0\<rparr>,
                 h\<lparr>links := (links h)(this \<mapsto> \<lparr>prev = this, next = this\<rparr>)\<rparr>))"

text \<open>
  The handler \<open>catch (...) { destroy(); throw; }\<close> of the three bulk constructors, applied
  to what the loop in the \<open>try\<close> block returned. The exception leaves the constructor, so
  the members are destroyed.
\<close>

definition ctor_guard ::
  "('a, 'w) elem \<Rightarrow> (fault + unit) \<times> 'm List \<times> ('a, 'm, 'w) heap \<Rightarrow> (fault + 'm List) \<times> ('a, 'm, 'w) heap" where
  "ctor_guard E r =
     (case r of
        (Inr _, L, h) \<Rightarrow> (Inr L, h)
      | (Inl Undefined, L, h) \<Rightarrow> (Inl Undefined, h)
      | (Inl (Exception e), L, h) \<Rightarrow>
          (case destroy E L h of
             (Inl f, h1) \<Rightarrow> (Inl f, h1)
           | (Inr _, h1) \<Rightarrow> (Inl (Exception e), h1\<lparr>links := (links h1)(data L := None)\<rparr>)))"

text \<open>\<open>for (size_t i = 0; i < count; ++i) push_back(value);\<close> with \<open>n\<close> rounds to go.\<close>

fun fill_loop ::
  "('a, 'w) elem \<Rightarrow> nat \<Rightarrow> 'a \<Rightarrow> 'm List \<Rightarrow> ('a, 'm, 'w) heap \<Rightarrow> (fault + unit) \<times> 'm List \<times> ('a, 'm, 'w) heap" where
  "fill_loop E 0 v L h = (Inr (), L, h)"
| "fill_loop E (Suc n) v L h =
     (case push_back E v L h of
        (Inl f, L1, h1) \<Rightarrow> (Inl f, L1, h1)
      | (Inr _, L1, h1) \<Rightarrow> fill_loop E n v L1 h1)"

text \<open>\<open>List(size_t count, const T& value, const Allocator& allocator)\<close>\<close>

definition List_fill ::
  "('a, 'w) elem \<Rightarrow> size_t \<Rightarrow> 'a \<Rightarrow> 'm NodeAlloc \<Rightarrow> addr \<Rightarrow> ('a, 'm, 'w) heap \<Rightarrow> (fault + 'm List) \<times> ('a, 'm, 'w) heap" where
  "List_fill E count v A this h =
     (case List_init A this h of
        None \<Rightarrow> (Inl Undefined, h)
      | Some (L, h0) \<Rightarrow> ctor_guard E (fill_loop E (unat count) v L h0))"

fun emplace_loop ::
  "('a, 'w) elem \<Rightarrow> nat \<Rightarrow> 'm List \<Rightarrow> ('a, 'm, 'w) heap \<Rightarrow> (fault + unit) \<times> 'm List \<times> ('a, 'm, 'w) heap" where
  "emplace_loop E 0 L h = (Inr (), L, h)"
| "emplace_loop E (Suc n) L h =
     (case emplace_back E L h of
        (Inl f, L1, h1) \<Rightarrow> (Inl f, L1, h1)
      | (Inr _, L1, h1) \<Rightarrow> emplace_loop E n L1 h1)"

text \<open>\<open>explicit List(size_t count, const Allocator& allocator)\<close>\<close>

definition List_count ::
  "('a, 'w) elem \<Rightarrow> size_t \<Rightarrow> 'm NodeAlloc \<Rightarrow> addr \<Rightarrow> ('a, 'm, 'w) heap \<Rightarrow> (fault + 'm List) \<times> ('a, 'm, 'w) heap" where
  "List_count E count A this h =
     (case List_init A this h of
        None \<Rightarrow> (Inl Undefined, h)
      | Some (L, h0) \<Rightarrow> ctor_guard E (emplace_loop E (unat count) L h0))"

text \<open>
  \<open>for (auto it = copy.begin(); it != copy.end(); ++it) push_back(*it);\<close>
  Every round that goes on has put a new object into the store, which has room for
  finitely many.
\<close>

lemma insert_L_free_less:
  assumes "insert_L E iter v L h = (Inr it, L1, h1)"
  shows "card {a. links h1 a = None} < card {a. links h a = None}"
proof -
  from assms have "links h it = None \<and> (\<forall>a. a \<noteq> it \<longrightarrow> (links h1 a = None) = (links h a = None))
      \<and> links h1 it \<noteq> None"
    by (auto simp: insert_L_def traits_allocate_def traits_construct_def set_next_def
          set_prev_def split: prod.splits sum.splits option.splits if_splits fault.splits)
  then have f: "links h it = None" "links h1 it \<noteq> None"
    and o: "\<And>a. a \<noteq> it \<Longrightarrow> (links h1 a = None) = (links h a = None)"
    by blast+
  have "{a. links h1 a = None} \<subseteq> {a. links h a = None}"
  proof
    fix x assume "x \<in> {a. links h1 a = None}"
    then have x: "links h1 x = None" by simp
    then have "x \<noteq> it" using f(2) by auto
    then show "x \<in> {a. links h a = None}" using o x by simp
  qed
  moreover have "it \<in> {a. links h a = None}" "it \<notin> {a. links h1 a = None}"
    using f by simp_all
  ultimately have "{a. links h1 a = None} \<subset> {a. links h a = None}" by blast
  then show ?thesis by (rule psubset_card_mono [OF finite])
qed

lemma push_back_free_less:
  assumes "push_back E v L h = (Inr u, L1, h1)"
  shows "card {a. links h1 a = None} < card {a. links h a = None}"
proof -
  from assms obtain it where "insert_L E (end_L L) v L h = (Inr it, L1, h1)"
    by (auto simp: push_back_def drop_result_def split: prod.splits sum.splits)
  then show ?thesis by (rule insert_L_free_less)
qed

function copy_loop ::
  "('a, 'w) elem \<Rightarrow> addr \<Rightarrow> addr \<Rightarrow> 'm List \<Rightarrow> ('a, 'm, 'w) heap \<Rightarrow> (fault + unit) \<times> 'm List \<times> ('a, 'm, 'w) heap" where
  "copy_loop E cend it L h =
     (if it = cend then (Inr (), L, h)
      else case deref h it of
             None \<Rightarrow> (Inl Undefined, L, h)
           | Some v \<Rightarrow>
               (case push_back E v L h of
                  (Inl f, L1, h1) \<Rightarrow> (Inl f, L1, h1)
                | (Inr _, L1, h1) \<Rightarrow>
                    (case incr h1 it of
                       None \<Rightarrow> (Inl Undefined, L1, h1)
                     | Some it' \<Rightarrow> copy_loop E cend it' L1 h1)))"
  by pat_completeness auto
termination
  by (relation "measure (\<lambda>(E, cend, it, L, h). card {a. links h a = None})")
     (auto simp: push_back_free_less [OF sym])

declare copy_loop.simps [simp del]

text \<open>\<open>List(const List& copy, const Allocator& alloc)\<close>\<close>

definition List_copy ::
  "('a, 'w) elem \<Rightarrow> 'm List \<Rightarrow> 'm NodeAlloc \<Rightarrow> addr \<Rightarrow> ('a, 'm, 'w) heap \<Rightarrow> (fault + 'm List) \<times> ('a, 'm, 'w) heap" where
  "List_copy E copy A this h =
     (case List_init A this h of
        None \<Rightarrow> (Inl Undefined, h)
      | Some (L, h0) \<Rightarrow>
          (case begin_L copy h0 of
             None \<Rightarrow> (Inl Undefined, h0)
           | Some it \<Rightarrow> ctor_guard E (copy_loop E (end_L copy) it L h0)))"

text \<open>
  \<open>List(const List& copy)\<close> delegates with
  \<open>select_on_container_copy_construction(copy.alloc)\<close>, which is \<open>copy.alloc\<close> for an
  allocator that does not declare the member.
\<close>

definition List_copy_ctor ::
  "('a, 'w) elem \<Rightarrow> 'm List \<Rightarrow> addr \<Rightarrow> ('a, 'm, 'w) heap \<Rightarrow> (fault + 'm List) \<times> ('a, 'm, 'w) heap" where
  "List_copy_ctor E copy this h = List_copy E copy (alloc copy) this h"

subsection \<open>Copy assignment\<close>

text \<open>\<open>std::swap(data, res.data)\<close> exchanges the two sentinels' fields.\<close>

definition swap_data :: "addr \<Rightarrow> addr \<Rightarrow> ('a, 'm, 'w) heap \<Rightarrow> ('a, 'm, 'w) heap option" where
  "swap_data a b h =
     (case (links h a, links h b) of
        (Some x, Some y) \<Rightarrow> Some (h\<lparr>links := (links h)(a \<mapsto> y, b \<mapsto> x)\<rparr>)
      | _ \<Rightarrow> None)"

text \<open>
  \<open>List& operator=(const List& copy)\<close>, lines 153-163, on the list \<open>this\<close>; \<open>r\<close> is
  where the local \<open>res\<close> lives. \<open>assign_fixups\<close> is lines 159-161:
  \<open>data.next->prev = &data; data.prev->next = &data; res.data.prev->next = &res.data\<close>.
  Then \<open>res\<close> goes out of scope.
\<close>

definition assign_fixups :: "addr \<Rightarrow> addr \<Rightarrow> ('a, 'm, 'w) heap \<Rightarrow> ('a, 'm, 'w) heap option" where
  "assign_fixups d r h =
     (case links h d of
        None \<Rightarrow> None
      | Some b1 \<Rightarrow>
          (case set_prev (next b1) d h of
             None \<Rightarrow> None
           | Some h1 \<Rightarrow>
               (case links h1 d of
                  None \<Rightarrow> None
                | Some b2 \<Rightarrow>
                    (case set_next (prev b2) d h1 of
                       None \<Rightarrow> None
                     | Some h2 \<Rightarrow>
                         (case links h2 r of
                            None \<Rightarrow> None
                          | Some b3 \<Rightarrow> set_next (prev b3) r h2)))))"

definition operator_assign ::
  "('a, 'w) elem \<Rightarrow> 'm List \<Rightarrow> addr \<Rightarrow> 'm List \<Rightarrow> ('a, 'm, 'w) heap \<Rightarrow> (fault + unit) \<times> 'm List \<times> ('a, 'm, 'w) heap" where
  "operator_assign E copy r this h =
     (case List_copy E copy (if pocca (alloc copy) then alloc copy else alloc this) r h of
        (Inl f, h1) \<Rightarrow> (Inl f, this, h1)
      | (Inr res, h1) \<Rightarrow>
          (let this1 = this\<lparr>alloc := alloc res\<rparr>;
               res1 = res\<lparr>alloc := alloc this\<rparr>
           in case swap_data (data this1) (data res1) h1 of
                None \<Rightarrow> (Inl Undefined, this1, h1)
              | Some h2 \<Rightarrow>
                  (let this2 = this1\<lparr>sz := sz res1\<rparr>
                   in case assign_fixups (data this2) (data res1) h2 of
                        None \<Rightarrow> (Inl Undefined, this2, h2)
                      | Some h3 \<Rightarrow>
                          (case List_dtor E res1 h3 of
                             (Inl f, h4) \<Rightarrow> (Inl f, this2, h4)
                           | (Inr _, h4) \<Rightarrow> (Inr (), this2, h4)))))"

subsection \<open>Iterating a list\<close>

text \<open>
  \<open>for (it = first; it != lim; ++it)\<close> collecting \<open>*it\<close>. On a damaged ring the loop
  need not end; \<open>None\<close> stands for that and for a read through a dangling pointer.
\<close>

partial_function (option) iterate :: "('a, 'm, 'w) heap \<Rightarrow> addr \<Rightarrow> addr \<Rightarrow> 'a list option" where
  "iterate h lim it =
     (if it = lim then Some []
      else case deref h it of
             None \<Rightarrow> None
           | Some v \<Rightarrow>
               (case incr h it of
                  None \<Rightarrow> None
                | Some it' \<Rightarrow> Option.bind (iterate h lim it') (\<lambda>vs. Some (v # vs))))"

definition elements :: "'m List \<Rightarrow> ('a, 'm, 'w) heap \<Rightarrow> 'a list option" where
  "elements L h =
     (case begin_L L h of None \<Rightarrow> None | Some it \<Rightarrow> iterate h (end_L L) it)"

subsection \<open>Well-formed rings\<close>

text \<open>The pairs of neighbours in a list.\<close>

fun adj :: "'x list \<Rightarrow> ('x \<times> 'x) set" where
  "adj (x # y # zs) = insert (x, y) (adj (y # zs))"
| "adj [x] = {}"
| "adj [] = {}"

text \<open>
  \<open>ring h s xs\<close>: the sentinel \<open>s\<close> and the nodes \<open>xs\<close>, in this order, form the circular
  doubly linked ring: all are different objects, along \<open>s, xs, s\<close> every \<open>next\<close> points to
  the right neighbour and every \<open>prev\<close> to the left one, and exactly the nodes hold a key.
\<close>

definition ring :: "('a, 'm, 'w) heap \<Rightarrow> addr \<Rightarrow> addr list \<Rightarrow> bool" where
  "ring h s xs \<longleftrightarrow>
     distinct (s # xs) \<and> keys h s = None \<and> list_all (\<lambda>x. keys h x \<noteq> None) xs \<and>
     (\<forall>(a, b) \<in> adj (s # xs @ [s]). incr h a = Some b \<and> decr h b = Some a)"

definition wf_list :: "'m List \<Rightarrow> ('a, 'm, 'w) heap \<Rightarrow> bool" where
  "wf_list L h \<longleftrightarrow> (\<exists>xs. ring h (data L) xs \<and> unat (sz L) = length xs)"

subsection \<open>Sequences of operations\<close>

text \<open>
  A client that calls the mutating operations one after the other. \<open>Insert i v\<close> and
  \<open>Erase i\<close> take their position from \<open>begin()\<close> advanced \<open>i\<close> times. An exception is
  caught by the client, which goes on; undefined behaviour ends the run.
\<close>

datatype 'a op = Push_back 'a | Push_front 'a | Insert nat 'a | Pop_back | Pop_front | Erase nat | Clear

fun advance :: "('a, 'm, 'w) heap \<Rightarrow> nat \<Rightarrow> addr \<Rightarrow> addr option" where
  "advance h 0 it = Some it"
| "advance h (Suc n) it = (case incr h it of None \<Rightarrow> None | Some it' \<Rightarrow> advance h n it')"

definition position :: "'m List \<Rightarrow> ('a, 'm, 'w) heap \<Rightarrow> nat \<Rightarrow> addr option" where
  "position L h i = (case begin_L L h of None \<Rightarrow> None | Some it \<Rightarrow> advance h i it)"

fun apply_op ::
  "('a, 'w) elem \<Rightarrow> 'a op \<Rightarrow> 'm List \<Rightarrow> ('a, 'm, 'w) heap \<Rightarrow> (fault + unit) \<times> 'm List \<times> ('a, 'm, 'w) heap" where
  "apply_op E (Push_back v) L h = push_back E v L h"
| "apply_op E (Push_front v) L h = push_front E v L h"
| "apply_op E (Insert i v) L h =
     (case position L h i of
        None \<Rightarrow> (Inl Undefined, L, h)
      | Some it \<Rightarrow> drop_result (insert_L E it v L h))"
| "apply_op E Pop_back L h = pop_back E L h"
| "apply_op E Pop_front L h = pop_front E L h"
| "apply_op E (Erase i) L h =
     (case position L h i of
        None \<Rightarrow> (Inl Undefined, L, h)
      | Some it \<Rightarrow> drop_result (erase E it L h))"
| "apply_op E Clear L h = clear E L h"

fun run :: "('a, 'w) elem \<Rightarrow> 'a op list \<Rightarrow> 'm List \<Rightarrow> ('a, 'm, 'w) heap \<Rightarrow> ('m List \<times> ('a, 'm, 'w) heap) option" where
  "run E [] L h = Some (L, h)"
| "run E (c # cs) L h =
     (case apply_op E c L h of
        (Inl Undefined, L1, h1) \<Rightarrow> None
      | (Inl (Exception e), L1, h1) \<Rightarrow> run E cs L1 h1
      | (Inr u, L1, h1) \<Rightarrow> run E cs L1 h1)"

subsection \<open>A list under construction\<close>

text \<open>
  \<open>under_construction h0 r ps h\<close>: since the store \<open>h0\<close>, a list has been set up at \<open>r\<close> and
  has grown to the nodes \<open>ps\<close>, all of them in storage that held no object in \<open>h0\<close>, and no
  other object has changed.
\<close>

definition under_construction ::
  "('a, 'm, 'w) heap \<Rightarrow> addr \<Rightarrow> addr list \<Rightarrow> ('a, 'm, 'w) heap \<Rightarrow> bool" where
  "under_construction h0 r ps h \<longleftrightarrow>
     ring h r ps \<and> list_all (\<lambda>a. links h0 a = None \<and> keys h0 a = None) (r # ps) \<and>
     (\<forall>a. a \<notin> set (r # ps) \<longrightarrow> links h a = links h0 a \<and> keys h a = keys h0 a)"

text \<open>
  \<open>rolled_back k h h'\<close>: between \<open>h\<close> and \<open>h'\<close>, \<open>k\<close> nodes were allocated and
  constructed; then either an allocation failed or a node was allocated and, its element
  not constructed, deallocated again; then the \<open>k\<close> nodes were destroyed and deallocated,
  first to last; and \<open>h'\<close> holds the objects of \<open>h\<close>, unchanged, and no other.
\<close>

definition rolled_back :: "nat \<Rightarrow> ('a, 'm, 'w) heap \<Rightarrow> ('a, 'm, 'w) heap \<Rightarrow> bool" where
  "rolled_back k h h' \<longleftrightarrow>
     links h' = links h \<and> keys h' = keys h \<and>
     (\<exists>ps fl. length ps = k \<and> (fl = [] \<or> (\<exists>q. fl = [Allocate q, Deallocate q])) \<and>
        trace h' = trace h @ concat (map (\<lambda>p. [Allocate p, Construct p]) ps) @ fl
                     @ concat (map (\<lambda>p. [Destroy p, Deallocate p]) ps))"

subsection \<open>The allocator during a construction that fails\<close>

text \<open>
  \<open>allocate_nodes A ps m\<close>: from the allocator state \<open>m\<close>, \<open>allocate(1)\<close> has been called
  once for each of \<open>ps\<close> and has returned these addresses in turn; the result is the
  state it has left, \<open>None\<close> if a call failed or returned another address.
  \<open>deallocate_nodes A ps m\<close>: \<open>deallocate(p, 1)\<close> for each \<open>p\<close> of \<open>ps\<close>, first to last.
\<close>

fun allocate_nodes :: "'m NodeAlloc \<Rightarrow> addr list \<Rightarrow> 'm \<Rightarrow> 'm option" where
  "allocate_nodes A [] m = Some m"
| "allocate_nodes A (p # ps) m =
     (case allocate_node A m of
        (Inl e, m1) \<Rightarrow> None
      | (Inr q, m1) \<Rightarrow> if q = p then allocate_nodes A ps m1 else None)"

fun deallocate_nodes :: "'m NodeAlloc \<Rightarrow> addr list \<Rightarrow> 'm \<Rightarrow> 'm" where
  "deallocate_nodes A [] m = m"
| "deallocate_nodes A (p # ps) m = deallocate_nodes A ps (deallocate_node A p m)"

text \<open>
  The round of \<open>push_back\<close> or \<open>emplace_back\<close> that throws takes the allocator from \<open>m\<close>
  to \<open>m'\<close> and adds \<open>fl\<close> to the trace: either \<open>allocate(1)\<close> fails, or it returns \<open>q\<close>,
  the element is not constructed and \<open>deallocate(q, 1)\<close> gives the storage back.
\<close>

definition failed_round :: "'m NodeAlloc \<Rightarrow> event list \<Rightarrow> 'm \<Rightarrow> 'm \<Rightarrow> bool" where
  "failed_round A fl m m' \<longleftrightarrow>
     (fl = [] \<and> (\<exists>e. allocate_node A m = (Inl e, m')))
     \<or> (\<exists>q m1. fl = [Allocate q, Deallocate q] \<and> allocate_node A m = (Inr q, m1)
           \<and> m' = deallocate_node A q m1)"

text \<open>
  \<open>unwound A k h h'\<close>: between \<open>h\<close> and \<open>h'\<close>, the allocator \<open>A\<close> has handed out \<open>k\<close> nodes,
  which were constructed; the next round has failed; then the \<open>k\<close> nodes were destroyed
  and every one of them was given back to \<open>A\<close> by \<open>deallocate\<close>, first to last. The
  allocator's state in \<open>h'\<close> is the one these calls of \<open>allocate\<close> and \<open>deallocate\<close>
  produce from its state in \<open>h\<close>, the trace of \<open>h'\<close> lists the calls in their order, and
  \<open>h'\<close> holds the objects of \<open>h\<close>, unchanged, and no other.
\<close>

definition unwound ::
  "'m NodeAlloc \<Rightarrow> nat \<Rightarrow> ('a, 'm, 'w) heap \<Rightarrow> ('a, 'm, 'w) heap \<Rightarrow> bool" where
  "unwound A k h h' \<longleftrightarrow>
     links h' = links h \<and> keys h' = keys h \<and>
     (\<exists>ps fl m1 m2. length ps = k \<and>
        allocate_nodes A ps (mem h) = Some m1 \<and> failed_round A fl m1 m2 \<and>
        mem h' = deallocate_nodes A ps m2 \<and>
        trace h' = trace h @ concat (map (\<lambda>p. [Allocate p, Construct p]) ps) @ fl
                     @ concat (map (\<lambda>p. [Destroy p, Deallocate p]) ps))"

subsection \<open>Element types and states used in the examples\<close>

text \<open>
  \<open>int\<close>, whose constructors never throw, and \<open>Counted<WhenThrow>\<close> of the tests: a static
  counter of live objects, and a constructor that throws when the counter would reach
  \<open>WhenThrow\<close>.
\<close>

definition int_elem :: "(int, unit) elem" where
  "int_elem = \<lparr>copy_ctor = (\<lambda>v w. (Inr v, w)), default_ctor = (\<lambda>w. (Inr 0, w)), dtor = (\<lambda>v w. w)\<rparr>"

definition Counted :: "int \<Rightarrow> (unit, int) elem" where
  "Counted WhenThrow =
     \<lparr>copy_ctor = (\<lambda>v counter. if counter + 1 = WhenThrow then (Inl (thrown 0), counter)
                                 else (Inr (), counter + 1)),
      default_ctor = (\<lambda>counter. if counter + 1 = WhenThrow then (Inl (thrown 0), counter)
                                 else (Inr (), counter + 1)),
      dtor = (\<lambda>v counter. counter - 1)\<rparr>"

text \<open>
  A store with no object, over an empty \<open>StackStorage\<close> whose buffer starts at address
  4096; a \<open>Node\<close> of 24 bytes aligned to 8.
\<close>

definition Node_t :: ctype where
  "Node_t = \<lparr>sizeof = 24, alignof = 8\<rparr>"

definition empty_heap :: "'w \<Rightarrow> ('a, StackStorage, 'w) heap" where
  "empty_heap w =
     \<lparr>mem = \<lparr>st_data = 4096, st_size = 0\<rparr>, world = w, links = (\<lambda>a. None), keys = (\<lambda>a. None),
      trace = []\<rparr>"

text \<open>
  A \<open>StackAllocator<Node, 120>\<close> (room for five nodes), and lists on it: \<open>List<int> l\<close>
  at address 64; \<open>List<int> a(2, 7)\<close> at 64 with \<open>List<int> b\<close> at 128; and, for
  \<open>Counted<5>\<close>, \<open>c(1)\<close> at 64 with \<open>d(2)\<close> at 128. The lists are what the constructors
  return.
\<close>

definition arena :: "StackStorage NodeAlloc" where
  "arena = StackAllocator 120 Node_t"

definition result :: "(fault + 'r) \<times> 'h \<Rightarrow> 'r" where
  "result x = (case fst x of Inr y \<Rightarrow> y | Inl f \<Rightarrow> undefined)"

definition int_l :: "StackStorage List \<times> (int, StackStorage, unit) heap" where
  "int_l = the (List_init arena 64 (empty_heap ()))"

definition int_a :: "(fault + StackStorage List) \<times> (int, StackStorage, unit) heap" where
  "int_a = List_fill int_elem 2 7 arena 64 (empty_heap ())"

definition int_ab :: "StackStorage List \<times> (int, StackStorage, unit) heap" where
  "int_ab = the (List_init arena 128 (snd int_a))"

definition counted_c :: "(fault + StackStorage List) \<times> (unit, StackStorage, int) heap" where
  "counted_c = List_count (Counted 5) 1 arena 64 (empty_heap 0)"

definition counted_cd :: "(fault + StackStorage List) \<times> (unit, StackStorage, int) heap" where
  "counted_cd = List_count (Counted 5) 2 arena 128 (snd counted_c)"

text \<open>
  A client of \<open>l\<close>; \<open>Counted<2> e(1)\<close> and the attempts \<open>Counted<3> f(5, value)\<close>,
  \<open>Counted<3> g(5)\<close>; and the scenario \<open>List<int> p(5, 3); List<int> q(4, 2); p = q;\<close> on a
  larger arena.
\<close>

definition int_run :: "StackStorage List \<times> (int, StackStorage, unit) heap" where
  "int_run =
     the (run int_elem [Push_back 1, Push_front 2, Insert 1 3, Pop_back, Erase 0, Push_back 9]
            (fst int_l) (snd int_l))"

definition counted_e :: "(fault + StackStorage List) \<times> (unit, StackStorage, int) heap" where
  "counted_e = List_count (Counted 2) 1 arena 64 (empty_heap 0)"

definition counted_f :: "(fault + StackStorage List) \<times> (unit, StackStorage, int) heap" where
  "counted_f = List_fill (Counted 3) 5 () arena 64 (empty_heap 0)"

definition counted_g :: "(fault + StackStorage List) \<times> (unit, StackStorage, int) heap" where
  "counted_g = List_count (Counted 3) 5 arena 64 (empty_heap 0)"

definition int_p :: "(fault + StackStorage List) \<times> (int, StackStorage, unit) heap" where
  "int_p = List_fill int_elem 5 3 (StackAllocator 312 Node_t) 64 (empty_heap ())"

definition int_pq :: "(fault + StackStorage List) \<times> (int, StackStorage, unit) heap" where
  "int_pq = List_fill int_elem 4 2 (StackAllocator 312 Node_t) 128 (snd int_p)"

section \<open>Properties of the arena\<close>

lemma pad_nat_aligned: "0 < a \<Longrightarrow> (u + pad_nat a u) mod a = 0"
proof (cases "u mod a = 0")
  case True
  then show ?thesis by (simp add: pad_nat_def)
next
  case False
  assume a: "0 < a"
  have lt: "u mod a < a" using a by simp
  have "u = a * (u div a) + u mod a" by simp
  then have "u + (a - u mod a) = a * (u div a) + a"
    using lt by linarith
  then have "(u + (a - u mod a)) mod a = 0" by simp
  with False show ?thesis by (simp add: pad_nat_def)
qed

lemma pad_nat_less: "0 < a \<Longrightarrow> pad_nat a u < a"
  by (simp add: pad_nat_def)

lemma unat_padding_of:
  assumes "0 < alignof T"
  shows "unat (padding_of T s) = pad_nat (unat (alignof T)) (unat (st_size s))"
proof -
  let ?a = "alignof T" and ?u = "st_size s"
  have a0: "0 < unat ?a" using assms by (simp only: word_less_nat_alt unat_0)
  have m: "unat (?u mod ?a) = unat ?u mod unat ?a" by (rule unat_mod)
  have lt: "unat ?u mod unat ?a < unat ?a" using a0 by simp
  show ?thesis
  proof (cases "?u mod ?a = 0")
    case True
    then have "unat ?u mod unat ?a = 0" using m by simp
    with True show ?thesis by (simp add: padding_of_def pad_nat_def)
  next
    case False
    then have "unat (?u mod ?a) \<noteq> 0" by (simp only: unat_eq_0 not_False_eq_True)
    then have nz: "unat ?u mod unat ?a \<noteq> 0" unfolding m .
    have le: "?u mod ?a \<le> ?a" using lt m by (simp only: word_le_nat_alt)
    have s: "unat (?a - ?u mod ?a) = unat ?a - unat (?u mod ?a)"
      using le by (rule unat_sub)
    have p: "padding_of T s = ?a - ?u mod ?a"
      using False by (simp add: padding_of_def Let_def word_greater_zero_iff)
    show ?thesis unfolding p s m using nz by (simp add: pad_nat_def)
  qed
qed

lemma unat_cursor_sum:
  fixes u c z p :: size_t
  assumes "unat u + unat p + unat c * unat z < 2 ^ 64"
  shows "unat (u + c * z + p) = unat u + unat p + unat c * unat z"
    and "unat (u + p) = unat u + unat p"
    and "unat (u + p + c * z) = unat u + unat p + unat c * unat z"
    and "unat (c * z) = unat c * unat z"
proof -
  have cz: "unat c * unat z < 2 ^ 64" using assms by linarith
  show m: "unat (c * z) = unat c * unat z"
    using cz by (simp add: unat_word_ariths)
  have up: "unat u + unat p < 2 ^ 64" using assms by linarith
  show a: "unat (u + p) = unat u + unat p"
    using up by (simp add: unat_word_ariths)
  have "unat (u + p + c * z) = (unat (u + p) + unat (c * z)) mod 2 ^ 64"
    by (simp add: unat_word_ariths)
  then show t: "unat (u + p + c * z) = unat u + unat p + unat c * unat z"
    using assms by (simp add: a m)
  have "u + c * z + p = u + p + c * z" by (simp only: add.assoc add.commute [of p])
  then show "unat (u + c * z + p) = unat u + unat p + unat c * unat z"
    using t by (simp only:)
qed

lemma allocate_fits:
  assumes al: "0 < alignof T"
    and fit: "unat (st_size s) + pad_nat (unat (alignof T)) (unat (st_size s))
               + unat count * unat (sizeof T) \<le> unat N"
  shows "allocate N T count s =
           (Inr (st_data s + (st_size s + padding_of T s)),
            s\<lparr>st_size := st_size s + padding_of T s + count * sizeof T\<rparr>)"
    and "unat (st_size s + padding_of T s + count * sizeof T) =
           unat (st_size s) + pad_nat (unat (alignof T)) (unat (st_size s))
             + unat count * unat (sizeof T)"
    and "unat (st_size s + padding_of T s) =
           unat (st_size s) + pad_nat (unat (alignof T)) (unat (st_size s))"
proof -
  have N: "unat N < 2 ^ 64" using unsigned_less [of N] by simp
  have b: "unat (st_size s) + unat (padding_of T s) + unat count * unat (sizeof T) < 2 ^ 64"
    using fit N by (simp add: unat_padding_of [OF al])
  note S = unat_cursor_sum [OF b]
  have "\<not> N < st_size s + count * sizeof T + padding_of T s"
    using fit by (simp add: word_less_nat_alt S(1) unat_padding_of [OF al])
  then show "allocate N T count s =
           (Inr (st_data s + (st_size s + padding_of T s)),
            s\<lparr>st_size := st_size s + padding_of T s + count * sizeof T\<rparr>)"
    by (simp add: allocate_def Let_def)
  show "unat (st_size s + padding_of T s + count * sizeof T) =
           unat (st_size s) + pad_nat (unat (alignof T)) (unat (st_size s))
             + unat count * unat (sizeof T)"
    by (simp add: S(3) unat_padding_of [OF al])
  show "unat (st_size s + padding_of T s) =
           unat (st_size s) + pad_nat (unat (alignof T)) (unat (st_size s))"
    by (simp add: S(2) unat_padding_of [OF al])
qed

lemma allocate_exceeds:
  assumes al: "0 < alignof T"
    and rep: "unat (st_size s) + pad_nat (unat (alignof T)) (unat (st_size s))
               + unat count * unat (sizeof T) < 2 ^ 64"
    and big: "unat N < unat (st_size s) + pad_nat (unat (alignof T)) (unat (st_size s))
               + unat count * unat (sizeof T)"
  shows "allocate N T count s = (Inl bad_alloc, s)"
proof -
  have b: "unat (st_size s) + unat (padding_of T s) + unat count * unat (sizeof T) < 2 ^ 64"
    using rep by (simp add: unat_padding_of [OF al])
  note S = unat_cursor_sum [OF b]
  have "N < st_size s + count * sizeof T + padding_of T s"
    using big by (simp add: word_less_nat_alt S(1) unat_padding_of [OF al])
  then show ?thesis by (simp add: allocate_def Let_def)
qed

lemma allocate_all_fits:
  assumes "\<forall>(T, c) \<in> set rs. 0 < alignof T"
    and "aligned_total (unat (st_size s)) rs \<le> unat N"
  shows "\<exists>ps s'. allocate_all N rs s = (Inr ps, s') \<and> length ps = length rs
           \<and> unat (st_size s') = aligned_total (unat (st_size s)) rs"
  using assms
proof (induction rs arbitrary: s)
  case Nil
  then show ?case by simp
next
  case (Cons r rs)
  obtain T c where r: "r = (T, c)" by (cases r)
  have al: "0 < alignof T" using Cons.prems(1) r by simp
  let ?u' = "unat (st_size s) + pad_nat (unat (alignof T)) (unat (st_size s))
               + unat c * unat (sizeof T)"
  have mono: "\<And>u qs. u \<le> aligned_total u qs"
  proof -
    fix u qs show "u \<le> aligned_total u qs"
    proof (induction qs arbitrary: u)
      case Nil then show ?case by simp
    next
      case (Cons q qs)
      obtain T' c' where "q = (T', c')" by (cases q)
      then show ?case using Cons [of "u + pad_nat (unat (alignof T')) u + unat c' * unat (sizeof T')"]
        by simp
    qed
  qed
  have tot: "aligned_total ?u' rs \<le> unat N" using Cons.prems(2) r by simp
  then have fit: "?u' \<le> unat N" using mono [of ?u' rs] by linarith
  note A = allocate_fits [OF al fit]
  let ?s1 = "s\<lparr>st_size := st_size s + padding_of T s + c * sizeof T\<rparr>"
  have u1: "unat (st_size ?s1) = ?u'" using A(2) by simp
  have "\<exists>ps s'. allocate_all N rs ?s1 = (Inr ps, s') \<and> length ps = length rs
           \<and> unat (st_size s') = aligned_total (unat (st_size ?s1)) rs"
    using Cons.prems(1) tot by (intro Cons.IH) (simp_all only: u1, simp)
  then obtain ps s' where R: "allocate_all N rs ?s1 = (Inr ps, s')" "length ps = length rs"
     "unat (st_size s') = aligned_total (unat (st_size ?s1)) rs" by blast
  show ?case using R A(1) u1 r by simp
qed

lemma padding_of_zero_iff:
  assumes "0 < alignof T"
  shows "padding_of T s = 0 \<longleftrightarrow> st_size s mod alignof T = 0"
proof -
  have lt: "st_size s mod alignof T < alignof T"
    using assms by (rule word_mod_less_divisor)
  show ?thesis
  proof (cases "st_size s mod alignof T = 0")
    case True
    then show ?thesis by (simp add: padding_of_def)
  next
    case False
    then have "padding_of T s = alignof T - st_size s mod alignof T"
      by (simp add: padding_of_def Let_def word_greater_zero_iff)
    moreover have "alignof T - st_size s mod alignof T \<noteq> 0" using lt by simp
    ultimately show ?thesis using False by simp
  qed
qed

lemma deallocate_after_allocate:
  assumes "allocate N T count s = (Inr p, s1)"
  shows "deallocate T p count s1 = s\<lparr>st_size := st_size s + padding_of T s\<rparr>"
  using assms
  by (auto simp: allocate_def deallocate_def Let_def split: if_splits)

lemma deallocate_region:
  assumes buf: "unat (st_data s) + unat (st_size s) < 2 ^ 64"
    and reg: "unat ptr + unat count * unat (sizeof T) < 2 ^ 64"
    and inb: "st_data s \<le> ptr"
  shows "(ptr + count * sizeof T = st_data s + st_size s) \<longleftrightarrow>
           (unat ptr + unat count * unat (sizeof T) = unat (st_data s) + unat (st_size s))"
    and "ptr + count * sizeof T = st_data s + st_size s \<Longrightarrow>
           unat count * unat (sizeof T) \<le> unat (st_size s) \<and>
           unat (st_size s - count * sizeof T) = unat (st_size s) - unat count * unat (sizeof T)"
proof -
  have cz: "unat count * unat (sizeof T) < 2 ^ 64" using reg by linarith
  have m: "unat (count * sizeof T) = unat count * unat (sizeof T)"
    using cz by (simp add: unat_word_ariths)
  have l: "unat (ptr + count * sizeof T) = unat ptr + unat count * unat (sizeof T)"
    using reg by (simp add: unat_word_ariths m)
  have r: "unat (st_data s + st_size s) = unat (st_data s) + unat (st_size s)"
    using buf by (simp add: unat_word_ariths)
  show eq: "(ptr + count * sizeof T = st_data s + st_size s) \<longleftrightarrow>
           (unat ptr + unat count * unat (sizeof T) = unat (st_data s) + unat (st_size s))"
    using l r by (simp add: word_unat_eq_iff)
  assume "ptr + count * sizeof T = st_data s + st_size s"
  then have e: "unat ptr + unat count * unat (sizeof T) = unat (st_data s) + unat (st_size s)"
    using eq by simp
  have "unat (st_data s) \<le> unat ptr" using inb by (simp add: word_le_nat_alt)
  then have le: "unat count * unat (sizeof T) \<le> unat (st_size s)" using e by linarith
  then have "count * sizeof T \<le> st_size s" by (simp add: word_le_nat_alt m)
  then have "unat (st_size s - count * sizeof T) = unat (st_size s) - unat (count * sizeof T)"
    by (rule unat_sub)
  with le m show "unat count * unat (sizeof T) \<le> unat (st_size s) \<and>
           unat (st_size s - count * sizeof T) = unat (st_size s) - unat count * unat (sizeof T)"
    by simp
qed

text \<open>
  C1 (counterexample). A \<open>StackAllocator<size_t, 10000>\<close> on an empty storage is asked for
  \<open>2 ^ 61\<close> elements of 8 bytes. The exact size \<open>used + padding + count * sizeof(T)\<close>
  is \<open>2 ^ 64\<close>, far above the capacity, yet the product wraps to 0 in \<open>size_t\<close>, the
  test passes and the call returns \<open>data + 0\<close> without moving the cursor. And a storage
  whose buffer starts at an address that is 8 modulo 16 (a \<open>StackStorage\<close> is aligned as
  its \<open>size_t\<close> member is) serves a 16-aligned type at that address: the cursor is
  aligned, the pointer is not.
\<close>

theorem allocate_overflow_counterexample:
  "unat (10000 :: size_t) <
     unat (st_size \<lparr>st_data = 4096, st_size = 0\<rparr>)
       + pad_nat (unat (alignof \<lparr>sizeof = 8, alignof = 8\<rparr>)) (unat (st_size \<lparr>st_data = 4096, st_size = 0\<rparr>))
       + unat (2 ^ 61 :: size_t) * unat (sizeof \<lparr>sizeof = 8, alignof = 8\<rparr>)
   \<and> allocate 10000 \<lparr>sizeof = 8, alignof = 8\<rparr> (2 ^ 61) \<lparr>st_data = 4096, st_size = 0\<rparr>
       = (Inr 4096, \<lparr>st_data = 4096, st_size = 0\<rparr>)
   \<and> allocate 64 \<lparr>sizeof = 16, alignof = 16\<rparr> 1 \<lparr>st_data = 4104, st_size = 0\<rparr>
       = (Inr 4104, \<lparr>st_data = 4104, st_size = 16\<rparr>)
   \<and> unat (4104 :: addr) mod unat (alignof \<lparr>sizeof = 16, alignof = 16\<rparr>) = 8"
  by (simp add: allocate_def padding_of_def pad_nat_def)

text \<open>
  C1 (amended). Whenever the exact sum \<open>used + padding + count * sizeof(T)\<close> fits in
  \<open>size_t\<close>: the padding is 0 on an aligned cursor and \<open>alignof(T) - used % alignof(T)\<close>
  otherwise; if the sum exceeds \<open>N\<close> the call throws \<open>bad_alloc\<close> and the storage is
  unchanged; otherwise it returns \<open>data + (used + padding)\<close>, whose offset is a multiple of
  \<open>alignof(T)\<close> (so the pointer is aligned when the buffer is), and leaves the cursor at
  the exact sum. A sequence of requests whose exact aligned total stays within \<open>N\<close>
  succeeds as a whole.
\<close>

theorem allocate_within_size_t:
  assumes al: "0 < alignof T"
    and rep: "unat (st_size s) + pad_nat (unat (alignof T)) (unat (st_size s))
               + unat count * unat (sizeof T) < 2 ^ 64"
  shows "unat (padding_of T s) = pad_nat (unat (alignof T)) (unat (st_size s))
    \<and> (unat N < unat (st_size s) + pad_nat (unat (alignof T)) (unat (st_size s))
                   + unat count * unat (sizeof T)
         \<longrightarrow> allocate N T count s = (Inl bad_alloc, s))
    \<and> (unat (st_size s) + pad_nat (unat (alignof T)) (unat (st_size s))
           + unat count * unat (sizeof T) \<le> unat N
         \<longrightarrow> allocate N T count s =
               (Inr (st_data s + (st_size s + padding_of T s)),
                s\<lparr>st_size := st_size s + padding_of T s + count * sizeof T\<rparr>)
           \<and> unat (st_size s + padding_of T s) mod unat (alignof T) = 0
           \<and> unat (st_size s + padding_of T s) =
               unat (st_size s) + pad_nat (unat (alignof T)) (unat (st_size s))
           \<and> unat (st_size s + padding_of T s + count * sizeof T) =
               unat (st_size s) + pad_nat (unat (alignof T)) (unat (st_size s))
                 + unat count * unat (sizeof T)
           \<and> (unat (st_data s) mod unat (alignof T) = 0
                \<and> unat (st_data s) + unat (st_size s + padding_of T s) < 2 ^ 64
               \<longrightarrow> unat (st_data s + (st_size s + padding_of T s)) mod unat (alignof T) = 0))
    \<and> ((\<forall>(T', c) \<in> set rs. 0 < alignof T') \<and> aligned_total (unat (st_size s)) rs \<le> unat N
         \<longrightarrow> (\<exists>ps s'. allocate_all N rs s = (Inr ps, s') \<and> length ps = length rs
                 \<and> unat (st_size s') = aligned_total (unat (st_size s)) rs))"
proof (intro conjI impI)
  show "unat (padding_of T s) = pad_nat (unat (alignof T)) (unat (st_size s))"
    by (rule unat_padding_of [OF al])
next
  assume "unat N < unat (st_size s) + pad_nat (unat (alignof T)) (unat (st_size s))
                   + unat count * unat (sizeof T)"
  then show "allocate N T count s = (Inl bad_alloc, s)"
    by (rule allocate_exceeds [OF al rep])
next
  assume fit: "unat (st_size s) + pad_nat (unat (alignof T)) (unat (st_size s))
           + unat count * unat (sizeof T) \<le> unat N"
  note A = allocate_fits [OF al fit]
  show "allocate N T count s =
               (Inr (st_data s + (st_size s + padding_of T s)),
                s\<lparr>st_size := st_size s + padding_of T s + count * sizeof T\<rparr>)"
    by (rule A(1))
  show "unat (st_size s + padding_of T s + count * sizeof T) =
               unat (st_size s) + pad_nat (unat (alignof T)) (unat (st_size s))
                 + unat count * unat (sizeof T)"
    by (rule A(2))
  show "unat (st_size s + padding_of T s) =
               unat (st_size s) + pad_nat (unat (alignof T)) (unat (st_size s))"
    by (rule A(3))
  have "0 < unat (alignof T)" using al by (simp only: word_less_nat_alt unat_0)
  then show off: "unat (st_size s + padding_of T s) mod unat (alignof T) = 0"
    unfolding A(3) by (rule pad_nat_aligned)
  assume b: "unat (st_data s) mod unat (alignof T) = 0
                \<and> unat (st_data s) + unat (st_size s + padding_of T s) < 2 ^ 64"
  then have "unat (st_data s + (st_size s + padding_of T s)) =
      unat (st_data s) + unat (st_size s + padding_of T s)"
    by (simp add: unat_word_ariths)
  then show "unat (st_data s + (st_size s + padding_of T s)) mod unat (alignof T) = 0"
    using b off by (simp add: mod_add_eq [symmetric])
next
  assume "(\<forall>(T', c) \<in> set rs. 0 < alignof T') \<and> aligned_total (unat (st_size s)) rs \<le> unat N"
  then show "\<exists>ps s'. allocate_all N rs s = (Inr ps, s') \<and> length ps = length rs
                 \<and> unat (st_size s') = aligned_total (unat (st_size s)) rs"
    using allocate_all_fits [of rs s N] by blast
qed

theorem allocate_within_size_t_witness:
  "allocate 32 \<lparr>sizeof = 8, alignof = 8\<rparr> 3 \<lparr>st_data = 4096, st_size = 4\<rparr>
      = (Inr 4104, \<lparr>st_data = 4096, st_size = 32\<rparr>)
   \<and> allocate 31 \<lparr>sizeof = 8, alignof = 8\<rparr> 3 \<lparr>st_data = 4096, st_size = 4\<rparr>
      = (Inl bad_alloc, \<lparr>st_data = 4096, st_size = 4\<rparr>)
   \<and> unat (padding_of \<lparr>sizeof = 8, alignof = 8\<rparr> \<lparr>st_data = 4096, st_size = 4\<rparr>) = 4
   \<and> (\<exists>ps s'. allocate_all 32 [(\<lparr>sizeof = 2, alignof = 2\<rparr>, 3), (\<lparr>sizeof = 8, alignof = 8\<rparr>, 2)]
                \<lparr>st_data = 4096, st_size = 4\<rparr> = (Inr ps, s') \<and> length ps = 2
              \<and> unat (st_size s') = 32)"
proof -
  let ?T = "\<lparr>sizeof = 8, alignof = 8\<rparr>" and ?s = "\<lparr>st_data = 4096, st_size = 4\<rparr>"
  let ?rs = "[(\<lparr>sizeof = 2, alignof = 2 :: size_t\<rparr>, 3 :: size_t), (?T, 2)]"
  have al: "0 < alignof ?T" by simp
  have rep: "unat (st_size ?s) + pad_nat (unat (alignof ?T)) (unat (st_size ?s))
               + unat (3 :: size_t) * unat (sizeof ?T) < 2 ^ 64"
    by (simp add: pad_nat_def)
  have e: "unat (st_size ?s) + pad_nat (unat (alignof ?T)) (unat (st_size ?s))
               + unat (3 :: size_t) * unat (sizeof ?T) = 32"
    by (simp add: pad_nat_def)
  have p: "padding_of ?T ?s = 4" by (simp add: padding_of_def)
  have t: "aligned_total (unat (st_size ?s)) ?rs = 32" by (simp add: pad_nat_def)
  show ?thesis
    using allocate_within_size_t [OF al rep, of 32 ?rs]
          allocate_within_size_t [OF al rep, of 31 "[]"]
    unfolding e t p by (auto simp del: allocate_all.simps)
qed

text \<open>
  C6. \<open>deallocate\<close> has no failing branch: it rolls the cursor back by
  \<open>count * sizeof(T)\<close> when \<open>ptr + count\<close> is \<open>data + size\<close> and returns the storage
  as it is otherwise. For a region that lies in the address space at or after the start
  of the buffer this is exact: the cursor goes down by \<open>count * sizeof(T)\<close>, which is at
  most \<open>used\<close>, when the region ends at \<open>data + used\<close>, and nothing changes in every
  other case.
\<close>

theorem deallocate_tail_or_noop:
  "deallocate T ptr count s =
     (if ptr + count * sizeof T = st_data s + st_size s
      then s\<lparr>st_size := st_size s - count * sizeof T\<rparr> else s)
   \<and> (unat (st_data s) + unat (st_size s) < 2 ^ 64
        \<and> unat ptr + unat count * unat (sizeof T) < 2 ^ 64 \<and> st_data s \<le> ptr \<longrightarrow>
      (unat ptr + unat count * unat (sizeof T) = unat (st_data s) + unat (st_size s)
          \<longrightarrow> deallocate T ptr count s = s\<lparr>st_size := st_size s - count * sizeof T\<rparr>
            \<and> unat count * unat (sizeof T) \<le> unat (st_size s)
            \<and> unat (st_size (deallocate T ptr count s)) =
                unat (st_size s) - unat count * unat (sizeof T)
            \<and> st_data (deallocate T ptr count s) = st_data s)
      \<and> (unat ptr + unat count * unat (sizeof T) \<noteq> unat (st_data s) + unat (st_size s)
          \<longrightarrow> deallocate T ptr count s = s))"
proof (intro conjI impI; (elim conjE)?)
  show "deallocate T ptr count s =
     (if ptr + count * sizeof T = st_data s + st_size s
      then s\<lparr>st_size := st_size s - count * sizeof T\<rparr> else s)"
    by (simp add: deallocate_def)
next
  assume buf: "unat (st_data s) + unat (st_size s) < 2 ^ 64"
    and reg: "unat ptr + unat count * unat (sizeof T) < 2 ^ 64"
    and inb: "st_data s \<le> ptr"
  note R = deallocate_region [OF buf reg inb]
  assume e: "unat ptr + unat count * unat (sizeof T) = unat (st_data s) + unat (st_size s)"
  then have w: "ptr + count * sizeof T = st_data s + st_size s" using R(1) by simp
  show d: "deallocate T ptr count s = s\<lparr>st_size := st_size s - count * sizeof T\<rparr>"
    using w by (simp add: deallocate_def)
  show "unat count * unat (sizeof T) \<le> unat (st_size s)" using R(2) [OF w] by simp
  show "unat (st_size (deallocate T ptr count s)) =
                unat (st_size s) - unat count * unat (sizeof T)"
    using R(2) [OF w] by (simp add: d)
  show "st_data (deallocate T ptr count s) = st_data s" by (simp add: d)
next
  assume buf: "unat (st_data s) + unat (st_size s) < 2 ^ 64"
    and reg: "unat ptr + unat count * unat (sizeof T) < 2 ^ 64"
    and inb: "st_data s \<le> ptr"
  note R = deallocate_region [OF buf reg inb]
  assume "unat ptr + unat count * unat (sizeof T) \<noteq> unat (st_data s) + unat (st_size s)"
  then have "ptr + count * sizeof T \<noteq> st_data s + st_size s" using R(1) by simp
  then show "deallocate T ptr count s = s" by (simp add: deallocate_def)
qed

theorem deallocate_tail_or_noop_witness:
  "deallocate \<lparr>sizeof = 8, alignof = 8\<rparr> 4120 1 \<lparr>st_data = 4096, st_size = 32\<rparr>
     = \<lparr>st_data = 4096, st_size = 24\<rparr>
   \<and> deallocate \<lparr>sizeof = 8, alignof = 8\<rparr> 4104 1 \<lparr>st_data = 4096, st_size = 32\<rparr>
     = \<lparr>st_data = 4096, st_size = 32\<rparr>"
proof -
  let ?T = "\<lparr>sizeof = 8 :: size_t, alignof = 8 :: size_t\<rparr>" and ?s = "\<lparr>st_data = 4096, st_size = 32\<rparr>"
  have buf: "unat (st_data ?s) + unat (st_size ?s) < 2 ^ 64" by simp
  have r1: "unat (4120 :: addr) + unat (1 :: size_t) * unat (sizeof ?T) < 2 ^ 64" by simp
  have r2: "unat (4104 :: addr) + unat (1 :: size_t) * unat (sizeof ?T) < 2 ^ 64" by simp
  have i1: "st_data ?s \<le> 4120" by simp
  have i2: "st_data ?s \<le> 4104" by simp
  have e1: "unat (4120 :: addr) + unat (1 :: size_t) * unat (sizeof ?T)
      = unat (st_data ?s) + unat (st_size ?s)" by simp
  have e2: "unat (4104 :: addr) + unat (1 :: size_t) * unat (sizeof ?T)
      \<noteq> unat (st_data ?s) + unat (st_size ?s)" by simp
  from deallocate_tail_or_noop [of ?T 4120 1 ?s] buf r1 i1 e1
  have a: "deallocate ?T 4120 1 ?s = ?s\<lparr>st_size := st_size ?s - 1 * sizeof ?T\<rparr>" by blast
  from deallocate_tail_or_noop [of ?T 4104 1 ?s] buf r2 i2 e2
  have b: "deallocate ?T 4104 1 ?s = ?s" by blast
  show ?thesis using a b by simp
qed

text \<open>
  C10. After a successful \<open>allocate(count)\<close>, deallocating the returned region leaves the
  cursor at its original value plus the alignment padding. The pair restores the cursor
  exactly if and only if the cursor was a multiple of \<open>alignof(T)\<close>; otherwise the padding
  \<open>alignof(T) - used % alignof(T)\<close>, which is not 0, stays consumed.
\<close>

theorem allocate_deallocate_keeps_padding:
  assumes al: "0 < alignof T"
    and ok: "allocate N T count s = (Inr p, s1)"
  shows "deallocate T p count s1 = s\<lparr>st_size := st_size s + padding_of T s\<rparr>
    \<and> (st_size (deallocate T p count s1) = st_size s \<longleftrightarrow> st_size s mod alignof T = 0)
    \<and> (st_size s mod alignof T \<noteq> 0 \<longrightarrow>
          padding_of T s = alignof T - st_size s mod alignof T \<and> 0 < padding_of T s)
    \<and> (unat (st_size s) + pad_nat (unat (alignof T)) (unat (st_size s)) < 2 ^ 64 \<longrightarrow>
          unat (st_size (deallocate T p count s1)) =
            unat (st_size s) + pad_nat (unat (alignof T)) (unat (st_size s)))"
proof (intro conjI impI)
  show d: "deallocate T p count s1 = s\<lparr>st_size := st_size s + padding_of T s\<rparr>"
    by (rule deallocate_after_allocate [OF ok])
  show "st_size (deallocate T p count s1) = st_size s \<longleftrightarrow> st_size s mod alignof T = 0"
    using padding_of_zero_iff [OF al, of s] by (simp add: d)
  {
    assume nz: "st_size s mod alignof T \<noteq> 0"
    then show "padding_of T s = alignof T - st_size s mod alignof T"
      by (simp add: padding_of_def Let_def word_greater_zero_iff)
    show "0 < padding_of T s"
      using nz padding_of_zero_iff [OF al, of s] by (simp add: word_greater_zero_iff)
  }
  assume "unat (st_size s) + pad_nat (unat (alignof T)) (unat (st_size s)) < 2 ^ 64"
  then have "unat (st_size s + padding_of T s) = unat (st_size s) + unat (padding_of T s)"
    by (simp add: unat_word_ariths unat_padding_of [OF al])
  then show "unat (st_size (deallocate T p count s1)) =
            unat (st_size s) + pad_nat (unat (alignof T)) (unat (st_size s))"
    by (simp add: d unat_padding_of [OF al])
qed

theorem allocate_deallocate_keeps_padding_witness:
  "deallocate \<lparr>sizeof = 8, alignof = 8\<rparr> 4104 3 \<lparr>st_data = 4096, st_size = 32\<rparr>
     = \<lparr>st_data = 4096, st_size = 8\<rparr>
   \<and> padding_of \<lparr>sizeof = 8, alignof = 8\<rparr> \<lparr>st_data = 4096, st_size = 4\<rparr> = 4
   \<and> deallocate \<lparr>sizeof = 8, alignof = 8\<rparr> 4104 3 \<lparr>st_data = 4096, st_size = 32\<rparr>
     \<noteq> \<lparr>st_data = 4096, st_size = 4\<rparr>"
proof -
  let ?T = "\<lparr>sizeof = 8 :: size_t, alignof = 8 :: size_t\<rparr>" and ?s = "\<lparr>st_data = 4096, st_size = 4\<rparr>"
  have al: "0 < alignof ?T" by simp
  have ok: "allocate 32 ?T 3 ?s = (Inr 4104, \<lparr>st_data = 4096, st_size = 32\<rparr>)"
    by (simp add: allocate_def padding_of_def)
  have p: "padding_of ?T ?s = 4" by (simp add: padding_of_def)
  show ?thesis
    using allocate_deallocate_keeps_padding [OF al ok] unfolding p by simp
qed

section \<open>Properties of the list\<close>

subsection \<open>The store\<close>

lemma links_eq_iff:
  "links h1 a = links h2 a \<longleftrightarrow> incr h1 a = incr h2 a \<and> decr h1 a = decr h2 a"
  by (cases "links h1 a"; cases "links h2 a") (auto simp: incr_def decr_def)

lemma incr_None_iff [simp]: "incr h a = None \<longleftrightarrow> links h a = None"
  by (simp add: incr_def)

lemma decr_None_iff [simp]: "decr h a = None \<longleftrightarrow> links h a = None"
  by (simp add: decr_def)

lemma set_next_Some:
  assumes "set_next p v h = Some h'"
  shows "links h p \<noteq> None" and "incr h' = (incr h)(p \<mapsto> v)" and "decr h' = decr h"
    and "keys h' = keys h" and "mem h' = mem h" and "world h' = world h" and "trace h' = trace h"
  using assms
  by (auto simp: set_next_def incr_def decr_def fun_eq_iff split: option.splits)

lemma set_prev_Some:
  assumes "set_prev p v h = Some h'"
  shows "links h p \<noteq> None" and "decr h' = (decr h)(p \<mapsto> v)" and "incr h' = incr h"
    and "keys h' = keys h" and "mem h' = mem h" and "world h' = world h" and "trace h' = trace h"
  using assms
  by (auto simp: set_prev_def incr_def decr_def fun_eq_iff split: option.splits)

lemma set_next_None: "set_next p v h = None \<longleftrightarrow> links h p = None"
  by (simp add: set_next_def split: option.splits)

lemma set_prev_None: "set_prev p v h = None \<longleftrightarrow> links h p = None"
  by (simp add: set_prev_def split: option.splits)

lemma traits_construct_Inr:
  assumes "traits_construct E it p n v h = (Inr u, h')"
  shows "links h it = None" and "keys h it = None"
    and "\<exists>k. copy_ctor E v (world h) = (Inr k, world h') \<and> keys h' = (keys h)(it \<mapsto> k)"
    and "incr h' = (incr h)(it \<mapsto> n)" and "decr h' = (decr h)(it \<mapsto> p)"
    and "mem h' = mem h" and "trace h' = trace h @ [Construct it]"
  using assms
  by (auto simp: traits_construct_def incr_def decr_def fun_eq_iff
           split: if_splits prod.splits sum.splits)

lemma traits_construct_Exception:
  assumes "traits_construct E it p n v h = (Inl (Exception e), h')"
  shows "copy_ctor E v (world h) = (Inl e, world h')" and "h' = h\<lparr>world := world h'\<rparr>"
  using assms
  by (auto simp: traits_construct_def split: if_splits prod.splits sum.splits)

lemma traits_construct_default_Inr:
  assumes "traits_construct_default E it p n h = (Inr u, h')"
  shows "links h it = None" and "keys h it = None"
    and "\<exists>k. default_ctor E (world h) = (Inr k, world h') \<and> keys h' = (keys h)(it \<mapsto> k)"
    and "incr h' = (incr h)(it \<mapsto> n)" and "decr h' = (decr h)(it \<mapsto> p)"
    and "mem h' = mem h" and "trace h' = trace h @ [Construct it]"
  using assms
  by (auto simp: traits_construct_default_def incr_def decr_def fun_eq_iff
           split: if_splits prod.splits sum.splits)

lemma traits_construct_default_Exception:
  assumes "traits_construct_default E it p n h = (Inl (Exception e), h')"
  shows "default_ctor E (world h) = (Inl e, world h')" and "h' = h\<lparr>world := world h'\<rparr>"
  using assms
  by (auto simp: traits_construct_default_def split: if_splits prod.splits sum.splits)

lemma traits_allocate_Inr:
  assumes "traits_allocate A h = (Inr it, h')"
  shows "allocate_node A (mem h) = (Inr it, mem h')"
    and "h' = h\<lparr>mem := mem h', trace := trace h @ [Allocate it]\<rparr>"
  using assms by (auto simp: traits_allocate_def split: prod.splits sum.splits)

lemma traits_allocate_Inl:
  assumes "traits_allocate A h = (Inl e, h')"
  shows "allocate_node A (mem h) = (Inl e, mem h')" and "h' = h\<lparr>mem := mem h'\<rparr>"
  using assms by (auto simp: traits_allocate_def split: prod.splits sum.splits)

subsection \<open>What insert and emplace\_back do to the store\<close>

lemma insert_L_Inr:
  assumes "insert_L E iter v L h = (Inr it, L', h')"
  shows "\<exists>p k. decr h iter = Some p \<and> links h it = None \<and> keys h it = None
           \<and> allocate_node (alloc L) (mem h) = (Inr it, mem h')
           \<and> copy_ctor E v (world h) = (Inr k, world h')
           \<and> incr h' = (incr h)(it \<mapsto> iter, p \<mapsto> it)
           \<and> decr h' = (decr h)(it \<mapsto> p, iter \<mapsto> it)
           \<and> keys h' = (keys h)(it \<mapsto> k)
           \<and> trace h' = trace h @ [Allocate it, Construct it]
           \<and> L' = L\<lparr>sz := sz L + 1\<rparr>"
proof -
  from assms obtain h1 b h2 u b2 h3 where
    a: "traits_allocate (alloc L) h = (Inr it, h1)" and b: "links h1 iter = Some b"
    and c: "traits_construct E it (prev b) iter v h1 = (Inr u, h2)"
    and d: "links h2 iter = Some b2" and e: "set_next (prev b2) it h2 = Some h3"
    and f: "set_prev iter it h3 = Some h'" and L': "L' = L\<lparr>sz := sz L + 1\<rparr>"
    by (auto simp: insert_L_def split: prod.splits sum.splits option.splits fault.splits)
  note A = traits_allocate_Inr [OF a]
  note C = traits_construct_Inr [OF c]
  note N = set_next_Some [OF e]
  note P = set_prev_Some [OF f]
  have h1: "links h1 = links h" "keys h1 = keys h" "world h1 = world h"
    by (subst A(2), simp)+
  have i1: "incr h1 = incr h" "decr h1 = decr h"
    using h1(1) by (auto simp: incr_def decr_def fun_eq_iff)
  have ne: "it \<noteq> iter" using C(1) b by auto
  have pb: "decr h iter = Some (prev b)" using b h1(1) by (simp add: decr_def)
  have "decr h2 iter = Some (prev b)" using pb ne by (simp add: C(5) i1)
  then have pb2: "prev b2 = prev b" using d by (simp add: decr_def)
  obtain k where k: "copy_ctor E v (world h) = (Inr k, world h2)" "keys h2 = (keys h)(it \<mapsto> k)"
    using C(3) h1 by auto
  have "incr h' = (incr h)(it \<mapsto> iter, prev b \<mapsto> it)"
    by (simp add: P(3) N(2) C(4) i1 pb2)
  moreover have "decr h' = (decr h)(it \<mapsto> prev b, iter \<mapsto> it)"
    by (simp add: P(2) N(3) C(5) i1)
  moreover have "keys h' = (keys h)(it \<mapsto> k)" by (simp add: P(4) N(4) k(2))
  moreover have "copy_ctor E v (world h) = (Inr k, world h')" by (simp add: k(1) P(6) N(6))
  moreover have "allocate_node (alloc L) (mem h) = (Inr it, mem h')"
    using A(1) by (simp add: P(5) N(5) C(6))
  moreover have "trace h' = trace h @ [Allocate it, Construct it]"
    by (simp add: P(7) N(7) C(7)) (subst A(2), simp)
  moreover have "links h it = None" "keys h it = None" using C(1,2) h1 by simp_all
  ultimately show ?thesis using pb L' by blast
qed

lemma insert_L_Exception:
  assumes "insert_L E iter v L h = (Inl (Exception e), L', h')"
  shows "L' = L \<and> links h' = links h \<and> keys h' = keys h \<and>
     ((allocate_node (alloc L) (mem h) = (Inl e, mem h') \<and> world h' = world h \<and> trace h' = trace h)
      \<or> (\<exists>it m. allocate_node (alloc L) (mem h) = (Inr it, m)
                \<and> copy_ctor E v (world h) = (Inl e, world h')
                \<and> mem h' = deallocate_node (alloc L) it m
                \<and> trace h' = trace h @ [Allocate it, Deallocate it]))"
proof (cases "traits_allocate (alloc L) h")
  case (Pair r h1)
  show ?thesis
  proof (cases r)
    case (Inl e')
    with Pair assms have eq: "e' = e" "L' = L" "h' = h1" by (auto simp: insert_L_def)
    note A = traits_allocate_Inl [OF Pair [unfolded Inl eq]]
    have "links h1 = links h" "keys h1 = keys h" "world h1 = world h" "trace h1 = trace h"
      by (subst A(2), simp)+
    then show ?thesis using A(1) eq by simp
  next
    case (Inr it)
    note A = traits_allocate_Inr [OF Pair [unfolded Inr]]
    have "\<exists>b h2. links h1 iter = Some b
             \<and> traits_construct E it (prev b) iter v h1 = (Inl (Exception e), h2)
             \<and> h' = traits_deallocate (alloc L) it h2 \<and> L' = L"
    proof (cases "links h1 iter")
      case None
      with assms Pair Inr show ?thesis by (simp add: insert_L_def)
    next
      case (Some b)
      obtain r2 h2 where c: "traits_construct E it (prev b) iter v h1 = (r2, h2)"
        by (cases "traits_construct E it (prev b) iter v h1")
      show ?thesis
      proof (cases r2)
        case (Inl f)
        with assms Pair Inr Some c show ?thesis
          by (cases f) (auto simp: insert_L_def)
      next
        case r2: (Inr u)
        with assms Pair Inr Some c show ?thesis
          by (auto simp: insert_L_def split: option.splits)
      qed
    qed
    then obtain b h2 where
      b: "links h1 iter = Some b"
      and c: "traits_construct E it (prev b) iter v h1 = (Inl (Exception e), h2)"
      and h': "h' = traits_deallocate (alloc L) it h2" and L': "L' = L"
      by blast
    note C = traits_construct_Exception [OF c]
    have h1: "links h1 = links h" "keys h1 = keys h" "world h1 = world h"
      "trace h1 = trace h @ [Allocate it]"
      by (subst A(2), simp)+
    have h2: "links h2 = links h" "keys h2 = keys h" "mem h2 = mem h1"
      "trace h2 = trace h @ [Allocate it]"
      by (subst C(2), simp add: h1)+
    have "links h' = links h" "keys h' = keys h" "world h' = world h2"
      "mem h' = deallocate_node (alloc L) it (mem h1)"
      "trace h' = trace h @ [Allocate it, Deallocate it]"
      by (simp_all add: h' traits_deallocate_def h2)
    moreover have "copy_ctor E v (world h) = (Inl e, world h2)" using C(1) h1 by simp
    ultimately show ?thesis using L' A(1) by auto
  qed
qed

subsection \<open>Neighbours\<close>

lemma adj_Cons: "l \<noteq> [] \<Longrightarrow> adj (x # l) = insert (x, hd l) (adj l)"
  by (cases l) simp_all

lemma adj_append:
  "A \<noteq> [] \<Longrightarrow> B \<noteq> [] \<Longrightarrow> adj (A @ B) = adj A \<union> adj B \<union> {(last A, hd B)}"
proof (induction A rule: adj.induct)
  case (1 x y zs)
  then show ?case by auto
next
  case (2 x)
  then show ?case by (auto simp: adj_Cons)
next
  case 3
  then show ?case by simp
qed

lemma adj_fst: "(a, b) \<in> adj l \<Longrightarrow> a \<in> set (butlast l)"
  by (induction l rule: adj.induct) auto

lemma adj_snd: "(a, b) \<in> adj l \<Longrightarrow> b \<in> set (tl l)"
  by (induction l rule: adj.induct) auto

lemma adj_mono: "adj l \<subseteq> adj (x # l)"
  by (cases l) auto

subsection \<open>Rings\<close>

lemma ring_empty:
  "ring h s [] \<longleftrightarrow> keys h s = None \<and> incr h s = Some s \<and> decr h s = Some s"
  by (auto simp: ring_def)

lemma ring_links_cong:
  assumes "ring h s xs"
    and "\<And>a. a \<in> set (s # xs) \<Longrightarrow> links h' a = links h a \<and> keys h' a = keys h a"
  shows "ring h' s xs"
proof -
  have i: "\<And>a. a \<in> set (s # xs) \<Longrightarrow> incr h' a = incr h a \<and> decr h' a = decr h a"
    using assms(2) by (simp add: incr_def decr_def)
  have "\<And>a b. (a, b) \<in> adj (s # xs @ [s]) \<Longrightarrow> a \<in> set (s # xs) \<and> b \<in> set (s # xs)"
  proof -
    fix a b assume ab: "(a, b) \<in> adj (s # xs @ [s])"
    from adj_fst [OF ab] adj_snd [OF ab] show "a \<in> set (s # xs) \<and> b \<in> set (s # xs)"
      by (auto simp: butlast_append)
  qed
  with assms i show ?thesis
    by (auto simp: ring_def list_all_iff)
qed

text \<open>The predecessor of a position, and the neighbours of a node.\<close>

lemma ring_pred:
  assumes "ring h s (ys @ zs)"
  shows "decr h (hd (zs @ [s])) = Some (last (s # ys))"
    and "incr h (last (s # ys)) = Some (hd (zs @ [s]))"
proof -
  have "adj (s # (ys @ zs) @ [s]) = adj ((s # ys) @ (zs @ [s]))" by simp
  also have "\<dots> = adj (s # ys) \<union> adj (zs @ [s]) \<union> {(last (s # ys), hd (zs @ [s]))}"
    by (rule adj_append) simp_all
  finally have "(last (s # ys), hd (zs @ [s])) \<in> adj (s # (ys @ zs) @ [s])" by simp
  with assms show "decr h (hd (zs @ [s])) = Some (last (s # ys))"
    and "incr h (last (s # ys)) = Some (hd (zs @ [s]))"
    by (auto simp: ring_def)
qed

lemma ring_live:
  assumes "ring h s xs" and "a \<in> set (s # xs)"
  shows "links h a \<noteq> None"
proof -
  from assms(2) obtain ys zs where "s # xs = ys @ a # zs" by (meson split_list)
  then have "(\<exists>zs'. xs = zs' \<and> a = s \<and> ys = []) \<or> (\<exists>ys'. xs = ys' @ a # zs)"
    by (cases ys) auto
  then show ?thesis
  proof
    assume "\<exists>zs'. xs = zs' \<and> a = s \<and> ys = []"
    then have "a = s" by blast
    moreover have "decr h (hd (xs @ [s])) = Some (last [s])"
      using ring_pred(1) [of h s "[]" xs] assms(1) by simp
    moreover have "incr h s = Some (hd (xs @ [s]))"
      using ring_pred(2) [of h s "[]" xs] assms(1) by simp
    ultimately show ?thesis by (auto simp: incr_def)
  next
    assume "\<exists>ys'. xs = ys' @ a # zs"
    then obtain ys' where "xs = ys' @ a # zs" by blast
    then have "decr h (hd ((a # zs) @ [s])) = Some (last (s # ys'))"
      using ring_pred(1) [of h s ys' "a # zs"] assms(1) by simp
    then show ?thesis by (auto simp: decr_def)
  qed
qed

lemma ring_fresh:
  assumes "ring h s xs" and "links h it = None"
  shows "it \<notin> set (s # xs)"
proof
  assume "it \<in> set (s # xs)"
  from ring_live [OF assms(1) this] assms(2) show False by simp
qed

lemma distinct_last_butlast: "distinct l \<Longrightarrow> l \<noteq> [] \<Longrightarrow> last l \<notin> set (butlast l)"
  by (metis append_butlast_last_id distinct_butlast not_distinct_conv_prefix)

lemma distinct_hd_tl: "distinct l \<Longrightarrow> l \<noteq> [] \<Longrightarrow> hd l \<notin> set (tl l)"
  by (cases l) auto

lemma ring_parts:
  assumes "distinct (s # ys @ zs)"
  shows "distinct (s # ys)" and "distinct (zs @ [s])"
    and "last (s # ys) \<in> set (s # ys)" and "hd (zs @ [s]) \<in> set (zs @ [s])"
    and "last (s # ys) \<notin> set zs" and "hd (zs @ [s]) \<notin> set ys"
    and "\<And>a b. (a, b) \<in> adj (s # ys) \<Longrightarrow>
           a \<noteq> last (s # ys) \<and> a \<in> set (s # ys) \<and> b \<in> set ys \<and> b \<noteq> hd (zs @ [s])"
    and "\<And>a b. (a, b) \<in> adj (zs @ [s]) \<Longrightarrow>
           a \<in> set zs \<and> a \<noteq> last (s # ys) \<and> b \<in> set (zs @ [s]) \<and> b \<noteq> hd (zs @ [s])"
proof -
  show dA: "distinct (s # ys)" and dB: "distinct (zs @ [s])" using assms by auto
  show lA: "last (s # ys) \<in> set (s # ys)" by (rule last_in_set) simp
  show hB: "hd (zs @ [s]) \<in> set (zs @ [s])" by (rule hd_in_set) simp
  show lz: "last (s # ys) \<notin> set zs" using lA assms by auto
  show hy: "hd (zs @ [s]) \<notin> set ys" using hB assms by auto
  {
    fix a b assume ab: "(a, b) \<in> adj (s # ys)"
    have "a \<in> set (butlast (s # ys))" by (rule adj_fst [OF ab])
    moreover have "last (s # ys) \<notin> set (butlast (s # ys))"
      by (rule distinct_last_butlast [OF dA]) simp
    moreover have "b \<in> set ys" using adj_snd [OF ab] by simp
    ultimately show "a \<noteq> last (s # ys) \<and> a \<in> set (s # ys) \<and> b \<in> set ys \<and> b \<noteq> hd (zs @ [s])"
      using hy by (auto dest: in_set_butlastD)
  }
  {
    fix a b assume ab: "(a, b) \<in> adj (zs @ [s])"
    have "a \<in> set zs" using adj_fst [OF ab] by (simp add: butlast_append)
    moreover have "b \<in> set (tl (zs @ [s]))" by (rule adj_snd [OF ab])
    moreover have "hd (zs @ [s]) \<notin> set (tl (zs @ [s]))"
      by (rule distinct_hd_tl [OF dB]) simp
    ultimately show "a \<in> set zs \<and> a \<noteq> last (s # ys) \<and> b \<in> set (zs @ [s]) \<and> b \<noteq> hd (zs @ [s])"
      using lz by (auto dest: list.set_sel(2) [rotated])
  }
qed

text \<open>Splicing a new node in before a position keeps the ring.\<close>

lemma ring_insert:
  assumes r: "ring h s (ys @ zs)"
    and fresh: "links h it = None"
    and i: "incr h' = (incr h)(it \<mapsto> hd (zs @ [s]), last (s # ys) \<mapsto> it)"
    and d: "decr h' = (decr h)(it \<mapsto> last (s # ys), hd (zs @ [s]) \<mapsto> it)"
    and k: "keys h' = (keys h)(it \<mapsto> k)"
  shows "ring h' s (ys @ it # zs)"
proof -
  let ?p = "last (s # ys)" and ?q = "hd (zs @ [s])"
  have dist: "distinct (s # ys @ zs)" using r by (simp add: ring_def)
  note P = ring_parts [OF dist]
  have nin: "it \<notin> set (s # ys @ zs)"
  proof
    assume "it \<in> set (s # ys @ zs)"
    from ring_live [OF r this] fresh show False by simp
  qed
  have l: "s # (ys @ zs) @ [s] = (s # ys) @ (zs @ [s])" by simp
  have e: "adj ((s # ys) @ (zs @ [s])) =
      adj (s # ys) \<union> adj (zs @ [s]) \<union> {(last (s # ys), hd (zs @ [s]))}"
    by (rule adj_append) simp_all
  have old: "\<And>a b. (a, b) \<in> adj (s # ys) \<union> adj (zs @ [s]) \<Longrightarrow> incr h a = Some b \<and> decr h b = Some a"
    using r unfolding ring_def l e by blast
  have oldA: "\<And>a b. (a, b) \<in> adj (s # ys) \<Longrightarrow> incr h a = Some b \<and> decr h b = Some a"
    using old by blast
  have oldB: "\<And>a b. (a, b) \<in> adj (zs @ [s]) \<Longrightarrow> incr h a = Some b \<and> decr h b = Some a"
    using old by blast
  have pit: "?p \<noteq> it" and qit: "?q \<noteq> it" using P(3,4) nin by auto
  have new: "adj (s # (ys @ it # zs) @ [s]) =
      adj (s # ys) \<union> insert (it, ?q) (adj (zs @ [s])) \<union> {(?p, it)}"
  proof -
    have l': "s # (ys @ it # zs) @ [s] = (s # ys) @ (it # (zs @ [s]))" by simp
    have e': "adj ((s # ys) @ (it # (zs @ [s]))) =
        adj (s # ys) \<union> adj (it # (zs @ [s])) \<union> {(last (s # ys), hd (it # (zs @ [s])))}"
      by (rule adj_append) simp_all
    have e2: "adj (it # (zs @ [s])) = insert (it, hd (zs @ [s])) (adj (zs @ [s]))"
      by (rule adj_Cons) simp
    show ?thesis unfolding l' e' e2 by simp
  qed
  have "\<forall>(a, b) \<in> adj (s # (ys @ it # zs) @ [s]). incr h' a = Some b \<and> decr h' b = Some a"
    unfolding new
  proof (intro ballI, clarify)
    fix a b
    assume "(a, b) \<in> adj (s # ys) \<union> insert (it, ?q) (adj (zs @ [s])) \<union> {(?p, it)}"
    then consider (A) "(a, b) \<in> adj (s # ys)" | (B) "(a, b) \<in> adj (zs @ [s])"
      | (N1) "a = it" "b = ?q" | (N2) "a = ?p" "b = it" by auto
    then show "incr h' a = Some b \<and> decr h' b = Some a"
    proof cases
      case A
      from P(7) [OF A] nin have "a \<noteq> ?p" "a \<noteq> it" "b \<noteq> ?q" "b \<noteq> it" by auto
      then show ?thesis using oldA [OF A] by (simp add: i d)
    next
      case B
      from P(8) [OF B] nin have "a \<noteq> ?p" "a \<noteq> it" "b \<noteq> ?q" "b \<noteq> it" by auto
      then show ?thesis using oldB [OF B] by (simp add: i d)
    next
      case N1
      then show ?thesis using pit qit by (simp add: i d)
    next
      case N2
      then show ?thesis using pit qit by (simp add: i d)
    qed
  qed
  moreover have "distinct (s # ys @ it # zs)" using dist nin by auto
  moreover have "keys h' s = None" using r nin by (auto simp: ring_def k)
  moreover have "list_all (\<lambda>x. keys h' x \<noteq> None) (ys @ it # zs)"
    using r by (auto simp: ring_def k list_all_iff)
  ultimately show ?thesis by (simp add: ring_def)
qed

text \<open>Unlinking a node keeps the ring.\<close>

lemma ring_erase:
  assumes r: "ring h s (ys @ x # zs)"
    and i: "incr h' = ((incr h)(last (s # ys) \<mapsto> hd (zs @ [s])))(x := None)"
    and d: "decr h' = ((decr h)(hd (zs @ [s]) \<mapsto> last (s # ys)))(x := None)"
    and k: "keys h' = (keys h)(x := None)"
  shows "ring h' s (ys @ zs)"
proof -
  let ?p = "last (s # ys)" and ?q = "hd (zs @ [s])"
  have dist': "distinct (s # ys @ x # zs)" using r by (simp add: ring_def)
  then have dist: "distinct (s # ys @ zs)" and xn: "x \<notin> set (s # ys @ zs)" by auto
  note P = ring_parts [OF dist]
  have l: "s # (ys @ x # zs) @ [s] = (s # ys) @ (x # (zs @ [s]))" by simp
  have e: "adj ((s # ys) @ (x # (zs @ [s]))) =
      adj (s # ys) \<union> adj (x # (zs @ [s])) \<union> {(last (s # ys), hd (x # (zs @ [s])))}"
    by (rule adj_append) simp_all
  have e2: "adj (x # (zs @ [s])) = insert (x, hd (zs @ [s])) (adj (zs @ [s]))"
    by (rule adj_Cons) simp
  have old: "\<And>a b. (a, b) \<in> adj (s # ys) \<union> adj (zs @ [s]) \<Longrightarrow> incr h a = Some b \<and> decr h b = Some a"
    using r unfolding ring_def l e e2 by blast
  have oldA: "\<And>a b. (a, b) \<in> adj (s # ys) \<Longrightarrow> incr h a = Some b \<and> decr h b = Some a"
    using old by blast
  have oldB: "\<And>a b. (a, b) \<in> adj (zs @ [s]) \<Longrightarrow> incr h a = Some b \<and> decr h b = Some a"
    using old by blast
  have px: "?p \<noteq> x" and qx: "?q \<noteq> x" using P(3,4) xn by auto
  have new: "adj (s # (ys @ zs) @ [s]) = adj (s # ys) \<union> adj (zs @ [s]) \<union> {(?p, ?q)}"
  proof -
    have l': "s # (ys @ zs) @ [s] = (s # ys) @ (zs @ [s])" by simp
    show ?thesis unfolding l' by (rule adj_append) simp_all
  qed
  have "\<forall>(a, b) \<in> adj (s # (ys @ zs) @ [s]). incr h' a = Some b \<and> decr h' b = Some a"
    unfolding new
  proof (intro ballI, clarify)
    fix a b
    assume "(a, b) \<in> adj (s # ys) \<union> adj (zs @ [s]) \<union> {(?p, ?q)}"
    then consider (A) "(a, b) \<in> adj (s # ys)" | (B) "(a, b) \<in> adj (zs @ [s])"
      | (N) "a = ?p" "b = ?q" by auto
    then show "incr h' a = Some b \<and> decr h' b = Some a"
    proof cases
      case A
      from P(7) [OF A] xn have "a \<noteq> ?p" "a \<noteq> x" "b \<noteq> ?q" "b \<noteq> x" by auto
      then show ?thesis using oldA [OF A] by (simp add: i d)
    next
      case B
      from P(8) [OF B] xn have "a \<noteq> ?p" "a \<noteq> x" "b \<noteq> ?q" "b \<noteq> x" by auto
      then show ?thesis using oldB [OF B] by (simp add: i d)
    next
      case N
      then show ?thesis using px qx by (simp add: i d)
    qed
  qed
  moreover have "keys h' s = None" using r by (auto simp: ring_def k)
  moreover have "list_all (\<lambda>a. keys h' a \<noteq> None) (ys @ zs)"
    using r xn by (auto simp: ring_def k list_all_iff)
  ultimately show ?thesis using dist by (simp add: ring_def)
qed

subsection \<open>erase\<close>

lemma links_of_incr_decr:
  "incr h a = Some q \<Longrightarrow> decr h a = Some p \<Longrightarrow> links h a = Some \<lparr>prev = p, next = q\<rparr>"
  by (cases "links h a") (auto simp: incr_def decr_def)

lemma traits_destroy_Some:
  assumes "keys h x = Some k"
  shows "\<exists>h'. traits_destroy E x h = Some h' \<and> incr h' = (incr h)(x := None)
           \<and> decr h' = (decr h)(x := None) \<and> keys h' = (keys h)(x := None)
           \<and> links h' = (links h)(x := None)
           \<and> world h' = dtor E k (world h) \<and> mem h' = mem h \<and> trace h' = trace h @ [Destroy x]"
  using assms by (auto simp: traits_destroy_def incr_def decr_def fun_eq_iff)

lemma erase_node:
  assumes r: "ring h s (ys @ x # zs)"
  shows "\<exists>k h'. keys h x = Some k
           \<and> erase E x L h = (Inr (hd (zs @ [s])), L\<lparr>sz := sz L - 1\<rparr>, h')
           \<and> incr h' = ((incr h)(last (s # ys) \<mapsto> hd (zs @ [s])))(x := None)
           \<and> decr h' = ((decr h)(hd (zs @ [s]) \<mapsto> last (s # ys)))(x := None)
           \<and> keys h' = (keys h)(x := None)
           \<and> world h' = dtor E k (world h) \<and> mem h' = deallocate_node (alloc L) x (mem h)
           \<and> trace h' = trace h @ [Destroy x, Deallocate x]"
proof -
  define p where "p = last (s # ys)"
  define q where "q = hd (zs @ [s])"
  have dist: "distinct (s # ys @ x # zs)" using r by (simp add: ring_def)
  have r2: "ring h s ((ys @ [x]) @ zs)" using r by simp
  have dx: "decr h x = Some p" and ip: "incr h p = Some x"
    using ring_pred [OF r] by (simp_all add: p_def)
  have dq: "decr h q = Some x" and ix: "incr h x = Some q"
    using ring_pred [OF r2] by (simp_all add: q_def)
  have lx: "links h x = Some \<lparr>prev = p, next = q\<rparr>" by (rule links_of_incr_decr [OF ix dx])
  have "q \<in> set (zs @ [s])" unfolding q_def by (rule hd_in_set) simp
  then have qx: "q \<noteq> x" using dist by auto
  have "p \<in> set (s # ys)" unfolding p_def by (rule last_in_set) simp
  then have px: "p \<noteq> x" using dist by auto
  obtain k where k: "keys h x = Some k" using r by (auto simp: ring_def)
  have "set_prev q p h \<noteq> None" using dq by (simp add: set_prev_None flip: decr_None_iff)
  then obtain h1 where s1: "set_prev q p h = Some h1" by blast
  note P1 = set_prev_Some [OF s1]
  have lx1: "links h1 x = Some \<lparr>prev = p, next = q\<rparr>"
    by (rule links_of_incr_decr) (simp_all add: P1 ix dx qx)
  have "set_next p q h1 \<noteq> None"
    using ip by (simp add: set_next_None P1(3) flip: incr_None_iff)
  then obtain h2 where s2: "set_next p q h1 = Some h2" by blast
  note P2 = set_next_Some [OF s2]
  have "keys h2 x = Some k" by (simp add: P2 P1 k)
  from traits_destroy_Some [OF this, of E] obtain h3 where
    s3: "traits_destroy E x h2 = Some h3" and i3: "incr h3 = (incr h2)(x := None)"
    and d3: "decr h3 = (decr h2)(x := None)" and k3: "keys h3 = (keys h2)(x := None)"
    and w3: "world h3 = dtor E k (world h2)" and m3: "mem h3 = mem h2"
    and t3: "trace h3 = trace h2 @ [Destroy x]"
    by blast
  define h' where "h' = traits_deallocate (alloc L) x h3"
  have e: "erase E x L h = (Inr q, L\<lparr>sz := sz L - 1\<rparr>, h')"
    by (simp add: erase_def lx s1 lx1 s2 s3 h'_def)
  have f: "incr h' = incr h3" "decr h' = decr h3" "keys h' = keys h3" "world h' = world h3"
    "mem h' = deallocate_node (alloc L) x (mem h3)" "trace h' = trace h3 @ [Deallocate x]"
    by (simp_all add: h'_def traits_deallocate_def incr_def decr_def fun_eq_iff)
  have "incr h' = ((incr h)(p \<mapsto> q))(x := None)" by (simp add: f i3 P2 P1)
  moreover have "decr h' = ((decr h)(q \<mapsto> p))(x := None)" by (simp add: f d3 P2 P1)
  moreover have "keys h' = (keys h)(x := None)" by (simp add: f k3 P2 P1)
  moreover have "world h' = dtor E k (world h)" by (simp add: f w3 P2 P1)
  moreover have "mem h' = deallocate_node (alloc L) x (mem h)" by (simp add: f m3 P2 P1)
  moreover have "trace h' = trace h @ [Destroy x, Deallocate x]" by (simp add: f t3 P2 P1)
  ultimately show ?thesis using k e unfolding p_def q_def by blast
qed

text \<open>\<open>erase(end())\<close>, and \<open>erase\<close> of any pointer that is not a \<open>Node\<close>, is undefined.\<close>

lemma erase_no_key:
  assumes "keys h x = None"
  shows "fst (erase E x L h) = Inl Undefined"
proof -
  have "\<And>h1 h2 p q a b. set_prev a p h = Some h1 \<Longrightarrow> set_next b q h1 = Some h2 \<Longrightarrow>
          traits_destroy E x h2 = None"
    using assms by (auto simp: traits_destroy_def dest!: set_prev_Some(4) set_next_Some(4))
  then show ?thesis
    by (auto simp: erase_def Let_def split: option.splits)
qed

lemma erase_not_Exception: "fst (erase E x L h) \<noteq> Inl (Exception e)"
  by (auto simp: erase_def Let_def split: option.splits)

subsection \<open>destroy\<close>

lemma destroy_loop_chain:
  assumes "distinct xs" and "s \<notin> set xs"
    and "\<forall>(a, b) \<in> adj (xs @ [s]). incr h a = Some b"
    and "list_all (\<lambda>x. keys h x \<noteq> None) xs"
  shows "\<exists>h'. destroy_loop E A s (hd (xs @ [s])) h = (Inr (), h')
           \<and> links h' = (\<lambda>a. if a \<in> set xs then None else links h a)
           \<and> keys h' = (\<lambda>a. if a \<in> set xs then None else keys h a)
           \<and> trace h' = trace h @ concat (map (\<lambda>x. [Destroy x, Deallocate x]) xs)
           \<and> mem h' = deallocate_nodes A xs (mem h)"
  using assms
proof (induction xs arbitrary: h)
  case Nil
  then show ?case by (simp add: destroy_loop.simps)
next
  case (Cons x xs)
  let ?q = "hd (xs @ [s])"
  have xs: "x \<noteq> s" using Cons.prems(2) by auto
  have "(x, ?q) \<in> adj ((x # xs) @ [s])" by (simp add: adj_Cons)
  then have ix: "incr h x = Some ?q" using Cons.prems(3) by blast
  then obtain b where b: "links h x = Some b" "next b = ?q" by (auto simp: incr_def)
  obtain k where k: "keys h x = Some k" using Cons.prems(4) by auto
  from traits_destroy_Some [OF k, of E] obtain h1 where
    s1: "traits_destroy E x h = Some h1" and i1: "incr h1 = (incr h)(x := None)"
    and k1: "keys h1 = (keys h)(x := None)" and l1: "links h1 = (links h)(x := None)"
    and t1: "trace h1 = trace h @ [Destroy x]"
    by blast
  let ?h2 = "traits_deallocate A x h1"
  have f: "incr ?h2 = (incr h)(x := None)" "keys ?h2 = (keys h)(x := None)"
    "links ?h2 = (links h)(x := None)" "trace ?h2 = trace h @ [Destroy x, Deallocate x]"
    by (simp_all add: traits_deallocate_def incr_def fun_eq_iff i1 k1 l1 t1)
  have m2: "mem ?h2 = deallocate_node A x (mem h)"
    using s1 k by (auto simp: traits_deallocate_def traits_destroy_def)
  have step: "destroy_loop E A s x h = destroy_loop E A s ?q ?h2"
    by (subst destroy_loop.simps) (simp add: xs b s1)
  have c1: "distinct xs" "s \<notin> set xs" using Cons.prems(1,2) by auto
  have c3: "\<forall>(a, b) \<in> adj (xs @ [s]). incr ?h2 a = Some b"
  proof (intro ballI, clarify)
    fix a b assume ab: "(a, b) \<in> adj (xs @ [s])"
    then have "a \<in> set xs" using adj_fst [OF ab] by (simp add: butlast_append)
    then have "a \<noteq> x" using Cons.prems(1) by auto
    moreover have "(a, b) \<in> adj ((x # xs) @ [s])" using ab adj_mono [of "xs @ [s]" x] by auto
    ultimately show "incr ?h2 a = Some b" using Cons.prems(3) by (auto simp: f)
  qed
  have c4: "list_all (\<lambda>a. keys ?h2 a \<noteq> None) xs"
    using Cons.prems(1,4) by (auto simp: f list_all_iff)
  from Cons.IH [OF c1 c3 c4] obtain h' where
    R: "destroy_loop E A s ?q ?h2 = (Inr (), h')"
    "links h' = (\<lambda>a. if a \<in> set xs then None else links ?h2 a)"
    "keys h' = (\<lambda>a. if a \<in> set xs then None else keys ?h2 a)"
    "trace h' = trace ?h2 @ concat (map (\<lambda>x. [Destroy x, Deallocate x]) xs)"
    "mem h' = deallocate_nodes A xs (mem ?h2)"
    by blast
  have "destroy_loop E A s (hd ((x # xs) @ [s])) h = (Inr (), h')" using step R(1) by simp
  moreover have "links h' = (\<lambda>a. if a \<in> set (x # xs) then None else links h a)"
    by (auto simp: R(2) f fun_eq_iff)
  moreover have "keys h' = (\<lambda>a. if a \<in> set (x # xs) then None else keys h a)"
    by (auto simp: R(3) f fun_eq_iff)
  moreover have "trace h' = trace h @ concat (map (\<lambda>x. [Destroy x, Deallocate x]) (x # xs))"
    by (simp add: R(4) f)
  moreover have "mem h' = deallocate_nodes A (x # xs) (mem h)"
    by (simp add: R(5) m2)
  ultimately show ?case by blast
qed

lemma destroy_ring:
  assumes r: "ring h (data L) xs"
  shows "\<exists>h'. destroy E L h = (Inr (), h')
           \<and> links h' = (\<lambda>a. if a \<in> set xs then None else links h a)
           \<and> keys h' = (\<lambda>a. if a \<in> set xs then None else keys h a)
           \<and> trace h' = trace h @ concat (map (\<lambda>x. [Destroy x, Deallocate x]) xs)
           \<and> mem h' = deallocate_nodes (alloc L) xs (mem h)"
proof -
  let ?s = "data L"
  have "incr h ?s = Some (hd (xs @ [?s]))" using ring_pred(2) [of h ?s "[]" xs] r by simp
  then obtain b where b: "links h ?s = Some b" "next b = hd (xs @ [?s])"
    by (auto simp: incr_def)
  have "adj (xs @ [?s]) \<subseteq> adj (?s # xs @ [?s])" by (rule adj_mono)
  then have c: "\<forall>(a, b) \<in> adj (xs @ [?s]). incr h a = Some b"
    using r by (auto simp: ring_def)
  have "distinct xs" "?s \<notin> set xs" "list_all (\<lambda>x. keys h x \<noteq> None) xs"
    using r by (auto simp: ring_def)
  from destroy_loop_chain [OF this(1,2) c this(3), of E "alloc L"] show ?thesis
    by (simp add: destroy_def b)
qed

subsection \<open>Iterating a ring\<close>

lemma iterate_chain:
  assumes "s \<notin> set zs" and "\<forall>(a, b) \<in> adj (zs @ [s]). incr h a = Some b"
    and "list_all (\<lambda>x. keys h x \<noteq> None) zs"
  shows "iterate h s (hd (zs @ [s])) = Some (map (\<lambda>x. the (keys h x)) zs)"
  using assms
proof (induction zs)
  case Nil
  show ?case by (subst iterate.simps) simp
next
  case (Cons z zs)
  have zs: "z \<noteq> s" using Cons.prems(1) by auto
  have "(z, hd (zs @ [s])) \<in> adj ((z # zs) @ [s])" by (simp add: adj_Cons)
  then have iz: "incr h z = Some (hd (zs @ [s]))" using Cons.prems(2) by blast
  obtain k where k: "keys h z = Some k" using Cons.prems(3) by auto
  have "adj (zs @ [s]) \<subseteq> adj ((z # zs) @ [s])" using adj_mono [of "zs @ [s]" z] by simp
  then have "\<forall>(a, b) \<in> adj (zs @ [s]). incr h a = Some b" using Cons.prems(2) by blast
  then have IH: "iterate h s (hd (zs @ [s])) = Some (map (\<lambda>x. the (keys h x)) zs)"
    using Cons.prems(1,3) by (intro Cons.IH) auto
  show ?case
    by (subst iterate.simps) (simp add: zs deref_def k iz IH)
qed

lemma elements_ring:
  assumes r: "ring h (data L) xs"
  shows "elements L h = Some (map (\<lambda>x. the (keys h x)) xs)"
proof -
  let ?s = "data L"
  have b: "begin_L L h = Some (hd (xs @ [?s]))"
    using ring_pred(2) [of h ?s "[]" xs] r by (simp add: begin_L_def incr_def)
  have "adj (xs @ [?s]) \<subseteq> adj (?s # xs @ [?s])" by (rule adj_mono)
  then have c: "\<forall>(a, b) \<in> adj (xs @ [?s]). incr h a = Some b"
    using r by (auto simp: ring_def)
  have "?s \<notin> set xs" "list_all (\<lambda>x. keys h x \<noteq> None) xs" using r by (auto simp: ring_def)
  from iterate_chain [OF this(1) c this(2)] show ?thesis
    by (simp add: elements_def b end_L_def)
qed

subsection \<open>Positions\<close>

lemma ring_incr_closed:
  assumes r: "ring h s xs" and a: "a \<in> set (s # xs)"
  shows "\<exists>b \<in> set (s # xs). incr h a = Some b"
proof (cases "a = s")
  case True
  have "incr h s = Some (hd (xs @ [s]))" using ring_pred(2) [of h s "[]" xs] r by simp
  moreover have "hd (xs @ [s]) \<in> set (xs @ [s])" by (rule hd_in_set) simp
  ultimately show ?thesis using True by auto
next
  case False
  with a obtain ys zs where xs: "xs = ys @ a # zs" by (auto dest: split_list)
  then have "ring h s ((ys @ [a]) @ zs)" using r by simp
  from ring_pred(2) [OF this] have "incr h a = Some (hd (zs @ [s]))" by simp
  moreover have "hd (zs @ [s]) \<in> set (zs @ [s])" by (rule hd_in_set) simp
  ultimately show ?thesis using xs by auto
qed

lemma advance_closed:
  assumes r: "ring h s xs" and a: "a \<in> set (s # xs)"
  shows "\<exists>b \<in> set (s # xs). advance h i a = Some b"
  using a
proof (induction i arbitrary: a)
  case 0
  then show ?case by simp
next
  case (Suc i)
  from ring_incr_closed [OF r Suc.prems] obtain b where
    b: "b \<in> set (s # xs)" "incr h a = Some b" by blast
  from Suc.IH [OF b(1)] show ?case by (simp add: b(2))
qed

lemma position_closed:
  assumes r: "ring h (data L) xs"
  shows "\<exists>b \<in> set (data L # xs). position L h i = Some b"
proof -
  from ring_incr_closed [OF r, of "data L"] obtain b where
    b: "b \<in> set (data L # xs)" "incr h (data L) = Some b" by auto
  have "begin_L L h = Some b" using b(2) by (simp add: begin_L_def incr_def)
  then have "position L h i = advance h i b" by (simp add: position_def)
  with advance_closed [OF r b(1), of i] show ?thesis by simp
qed

subsection \<open>The stored size\<close>

lemma distinct_length_addr:
  fixes l :: "addr list"
  assumes "distinct l"
  shows "length l \<le> 2 ^ 64"
proof -
  have "length l = card (set l)" using assms by (simp add: distinct_card)
  also have "\<dots> \<le> card (UNIV :: addr set)" by (rule card_mono) simp_all
  also have "\<dots> = 2 ^ 64" by (simp add: card_word)
  finally show ?thesis .
qed

lemma unat_sz_Suc:
  fixes n :: size_t
  assumes "unat n = length xs" and "distinct (it # s # (xs :: addr list))"
  shows "unat (n + 1) = Suc (length xs)"
proof -
  have "length (it # s # xs) \<le> 2 ^ 64" by (rule distinct_length_addr [OF assms(2)])
  then have "unat n + 1 < 2 ^ 64" using assms(1) by simp
  then have "unat (n + 1) = unat n + 1" by (simp add: unat_word_ariths)
  then show ?thesis using assms(1) by simp
qed

lemma unat_sz_pred:
  fixes n :: size_t
  assumes "unat n = Suc m"
  shows "unat (n - 1) = m"
proof -
  have "n \<noteq> 0" using assms by auto
  then have "unat (n - 1) = unat n - 1" by (rule unat_minus_one)
  then show ?thesis using assms by simp
qed

subsection \<open>Every operation keeps the list well formed\<close>

lemma drop_result_eq:
  assumes "drop_result x = (r', L', h')"
  shows "\<exists>r. x = (r, L', h') \<and> (r' = Inl Undefined \<longleftrightarrow> r = Inl Undefined)
           \<and> (\<forall>e. r' = Inl (Exception e) \<longleftrightarrow> r = Inl (Exception e))
           \<and> (r' = Inr () \<longleftrightarrow> (\<exists>y. r = Inr y))"
  using assms by (auto simp: drop_result_def split: prod.splits sum.splits)

lemma insert_L_ring:
  assumes r: "ring h s (ys @ zs)"
    and res: "insert_L E (hd (zs @ [s])) v L h = (Inr it, L', h')"
  shows "ring h' s (ys @ it # zs)" and "L' = L\<lparr>sz := sz L + 1\<rparr>"
    and "links h it = None" and "keys h it = None"
proof -
  from insert_L_Inr [OF res] obtain p k where
    p: "decr h (hd (zs @ [s])) = Some p" and f: "links h it = None" "keys h it = None"
    and i: "incr h' = (incr h)(it \<mapsto> hd (zs @ [s]), p \<mapsto> it)"
    and d: "decr h' = (decr h)(it \<mapsto> p, hd (zs @ [s]) \<mapsto> it)"
    and k: "keys h' = (keys h)(it \<mapsto> k)" and L': "L' = L\<lparr>sz := sz L + 1\<rparr>"
    by blast
  have pl: "p = last (s # ys)" using ring_pred(1) [OF r] p by simp
  show "ring h' s (ys @ it # zs)"
    by (rule ring_insert [OF r f(1) i [unfolded pl] d [unfolded pl] k])
  show "L' = L\<lparr>sz := sz L + 1\<rparr>" by (rule L')
  show "links h it = None" "keys h it = None" by (rule f)+
qed

lemma wf_list_insert:
  assumes r: "ring h (data L) xs" and n: "unat (sz L) = length xs"
    and a: "a \<in> set (data L # xs)"
    and res: "insert_L E a v L h = (rs, L', h')" and u: "rs \<noteq> Inl Undefined"
  shows "wf_list L' h'"
proof (cases rs)
  case (Inl f)
  with u obtain e where "rs = Inl (Exception e)" by (cases f) auto
  from insert_L_Exception [OF res [unfolded this]]
  have "L' = L" "links h' = links h" "keys h' = keys h" by blast+
  then have e: "L' = L" "\<And>a. links h' a = links h a \<and> keys h' a = keys h a" by simp_all
  have "ring h' (data L) xs" by (rule ring_links_cong [OF r e(2)])
  then show ?thesis using n e(1) by (auto simp: wf_list_def)
next
  case (Inr it)
  have dist: "distinct (data L # xs)" using r by (simp add: ring_def)
  from a dist obtain ys zs where s: "xs = ys @ zs" "a = hd (zs @ [data L])"
  proof (cases "a = data L")
    case True
    then show ?thesis using that [of xs "[]"] by simp
  next
    case False
    with a obtain ys zs where "xs = ys @ a # zs" by (auto dest: split_list)
    then show ?thesis using that [of ys "a # zs"] by simp
  qed
  note I = insert_L_ring [OF r [unfolded s(1)] res [unfolded Inr s(2)]]
  have "it \<notin> set (data L # xs)" by (rule ring_fresh [OF r I(3)])
  then have "distinct (it # data L # xs)" using dist by simp
  from unat_sz_Suc [OF n this] have "unat (sz L') = length (ys @ it # zs)"
    by (simp add: I(2) s(1))
  moreover have "data L' = data L" by (simp add: I(2))
  ultimately show ?thesis using I(1) by (auto simp: wf_list_def)
qed

lemma wf_list_erase:
  assumes r: "ring h (data L) xs" and n: "unat (sz L) = length xs"
    and a: "a \<in> set (data L # xs)"
    and res: "erase E a L h = (rs, L', h')" and u: "rs \<noteq> Inl Undefined"
  shows "wf_list L' h'"
proof (cases "a = data L")
  case True
  have "keys h a = None" using r True by (simp add: ring_def)
  from erase_no_key [OF this, of E L] res u show ?thesis by simp
next
  case False
  with a obtain ys zs where xs: "xs = ys @ a # zs" by (auto dest: split_list)
  from erase_node [OF r [unfolded xs], of E L] res obtain k where
    L': "L' = L\<lparr>sz := sz L - 1\<rparr>"
    and i: "incr h' = ((incr h)(last (data L # ys) \<mapsto> hd (zs @ [data L])))(a := None)"
    and d: "decr h' = ((decr h)(hd (zs @ [data L]) \<mapsto> last (data L # ys)))(a := None)"
    and k: "keys h' = (keys h)(a := None)"
    by auto
  have "ring h' (data L) (ys @ zs)" by (rule ring_erase [OF r [unfolded xs] i d k])
  moreover have "unat (sz L') = length (ys @ zs)"
    using unat_sz_pred [of "sz L" "length (ys @ zs)"] n by (simp add: L' xs)
  moreover have "data L' = data L" by (simp add: L')
  ultimately show ?thesis by (auto simp: wf_list_def)
qed

lemma wf_list_clear:
  assumes r: "ring h (data L) xs"
    and res: "clear E L h = (rs, L', h')"
  shows "rs = Inr () \<and> ring h' (data L') [] \<and> sz L' = 0 \<and> data L' = data L"
proof -
  let ?s = "data L"
  from destroy_ring [OF r, of E] obtain h1 where
    d: "destroy E L h = (Inr (), h1)"
    and l1: "links h1 = (\<lambda>a. if a \<in> set xs then None else links h a)"
    and k1: "keys h1 = (\<lambda>a. if a \<in> set xs then None else keys h a)"
    by blast
  have sx: "?s \<notin> set xs" using r by (simp add: ring_def)
  have "links h ?s \<noteq> None" by (rule ring_live [OF r]) simp
  then obtain b where b: "links h1 ?s = Some b" using sx by (auto simp: l1)
  let ?h' = "h1\<lparr>links := (links h1)(?s \<mapsto> \<lparr>prev = ?s, next = ?s\<rparr>)\<rparr>"
  have c: "clear E L h = (Inr (), L\<lparr>sz := 0\<rparr>, ?h')" by (simp add: clear_def d b)
  have "keys h ?s = None" using r by (simp add: ring_def)
  then have "ring ?h' ?s []" using sx by (simp add: ring_empty incr_def decr_def k1)
  then show ?thesis using c res by auto
qed

lemma wf_list_apply_op:
  assumes w: "wf_list L h"
    and res: "apply_op E c L h = (rs, L', h')" and u: "rs \<noteq> Inl Undefined"
  shows "wf_list L' h'"
proof -
  from w obtain xs where r: "ring h (data L) xs" and n: "unat (sz L) = length xs"
    by (auto simp: wf_list_def)
  let ?s = "data L"
  have sin: "?s \<in> set (?s # xs)" by simp
  from ring_incr_closed [OF r sin] obtain fst_it where
    b: "fst_it \<in> set (?s # xs)" "begin_L L h = Some fst_it"
    by (auto simp: begin_L_def incr_def)
  have "decr h (hd ([] @ [?s])) = Some (last (?s # xs))"
    using ring_pred(1) [of h ?s xs "[]"] r by simp
  then have l: "decr h (end_L L) = Some (last (?s # xs))" by (simp add: end_L_def)
  have lin: "last (?s # xs) \<in> set (?s # xs)" by (rule last_in_set) simp
  show ?thesis
  proof (cases c)
    case (Push_back v)
    with res obtain r0 where "insert_L E ?s v L h = (r0, L', h')" "r0 \<noteq> Inl Undefined"
      using u by (auto simp: push_back_def end_L_def dest!: drop_result_eq)
    then show ?thesis by (rule wf_list_insert [OF r n sin])
  next
    case (Push_front v)
    with res obtain r0 where "insert_L E fst_it v L h = (r0, L', h')" "r0 \<noteq> Inl Undefined"
      using u by (auto simp: push_front_def b(2) dest!: drop_result_eq)
    then show ?thesis by (rule wf_list_insert [OF r n b(1)])
  next
    case (Insert i v)
    from position_closed [OF r, of i] obtain a where
      a: "a \<in> set (?s # xs)" "position L h i = Some a" by blast
    with Insert res obtain r0 where "insert_L E a v L h = (r0, L', h')" "r0 \<noteq> Inl Undefined"
      using u by (auto dest!: drop_result_eq)
    then show ?thesis by (rule wf_list_insert [OF r n a(1)])
  next
    case Pop_back
    with res obtain r0 where "erase E (last (?s # xs)) L h = (r0, L', h')" "r0 \<noteq> Inl Undefined"
      using u by (auto simp: pop_back_def l dest!: drop_result_eq)
    then show ?thesis by (rule wf_list_erase [OF r n lin])
  next
    case Pop_front
    with res obtain r0 where "erase E fst_it L h = (r0, L', h')" "r0 \<noteq> Inl Undefined"
      using u by (auto simp: pop_front_def b(2) dest!: drop_result_eq)
    then show ?thesis by (rule wf_list_erase [OF r n b(1)])
  next
    case (Erase i)
    from position_closed [OF r, of i] obtain a where
      a: "a \<in> set (?s # xs)" "position L h i = Some a" by blast
    with Erase res obtain r0 where "erase E a L h = (r0, L', h')" "r0 \<noteq> Inl Undefined"
      using u by (auto dest!: drop_result_eq)
    then show ?thesis by (rule wf_list_erase [OF r n a(1)])
  next
    case Clear
    with res have "clear E L h = (rs, L', h')" by simp
    from wf_list_clear [OF r this] show ?thesis by (auto simp: wf_list_def)
  qed
qed

lemma wf_list_run:
  assumes "wf_list L h" and "run E cs L h = Some (L', h')"
  shows "wf_list L' h'"
  using assms
proof (induction cs arbitrary: L h)
  case Nil
  then show ?case by simp
next
  case (Cons c cs)
  obtain rs L1 h1 where a: "apply_op E c L h = (rs, L1, h1)" by (cases "apply_op E c L h")
  with Cons.prems(2) have u: "rs \<noteq> Inl Undefined" and rest: "run E cs L1 h1 = Some (L', h')"
    by (auto split: sum.splits fault.splits)
  from wf_list_apply_op [OF Cons.prems(1) a u] have "wf_list L1 h1" .
  from Cons.IH [OF this rest] show ?case .
qed

subsection \<open>Lists under construction\<close>

lemma List_init_uc:
  assumes "List_init A r h0 = Some (L, h)"
  shows "under_construction h0 r [] h" and "L = \<lparr>alloc = A, data = r, sz = 0\<rparr>"
    and "trace h = trace h0" and "links h0 r = None" and "keys h0 r = None"
    and "h = h0\<lparr>links := (links h0)(r \<mapsto> \<lparr>prev = r, next = r\<rparr>)\<rparr>"
  using assms
  by (auto simp: List_init_def under_construction_def ring_empty incr_def decr_def
           split: if_splits)

lemma push_back_uc:
  assumes uc: "under_construction h0 r ps h" and dr: "data L = r"
    and res: "push_back E v L h = (rs, L', h')" and u: "rs \<noteq> Inl Undefined"
  shows "(rs = Inr () \<and> (\<exists>it. under_construction h0 r (ps @ [it]) h'
            \<and> trace h' = trace h @ [Allocate it, Construct it]
            \<and> allocate_node (alloc L) (mem h) = (Inr it, mem h')) \<and> L' = L\<lparr>sz := sz L + 1\<rparr>)
       \<or> ((\<exists>e. rs = Inl (Exception e)) \<and> under_construction h0 r ps h' \<and> L' = L
            \<and> (\<exists>fl. trace h' = trace h @ fl \<and> (fl = [] \<or> (\<exists>q. fl = [Allocate q, Deallocate q]))
                   \<and> failed_round (alloc L) fl (mem h) (mem h')))"
proof -
  from res obtain r0 where ins: "insert_L E r v L h = (r0, L', h')"
    and r0: "r0 = Inl Undefined \<longleftrightarrow> rs = Inl Undefined"
      "\<And>e. rs = Inl (Exception e) \<longleftrightarrow> r0 = Inl (Exception e)"
      "rs = Inr () \<longleftrightarrow> (\<exists>y. r0 = Inr y)"
    by (auto simp: push_back_def end_L_def dr dest!: drop_result_eq)
  have r: "ring h r ps" and fr: "list_all (\<lambda>a. links h0 a = None \<and> keys h0 a = None) (r # ps)"
    and same: "\<And>a. a \<notin> set (r # ps) \<Longrightarrow> links h a = links h0 a \<and> keys h a = keys h0 a"
    using uc by (auto simp: under_construction_def)
  show ?thesis
  proof (cases r0)
    case (Inl f)
    with r0(1) u obtain e where e: "r0 = Inl (Exception e)" by (cases f) auto
    from insert_L_Exception [OF ins [unfolded e]]
    have L': "L' = L" and l: "\<And>a. links h' a = links h a \<and> keys h' a = keys h a"
      and t: "(trace h' = trace h \<and> allocate_node (alloc L) (mem h) = (Inl e, mem h'))
            \<or> (\<exists>it m. trace h' = trace h @ [Allocate it, Deallocate it]
                  \<and> allocate_node (alloc L) (mem h) = (Inr it, m)
                  \<and> mem h' = deallocate_node (alloc L) it m)"
      by auto
    have "ring h' r ps" by (rule ring_links_cong [OF r l])
    then have "under_construction h0 r ps h'"
      using fr same l by (simp add: under_construction_def)
    moreover have "\<exists>fl. trace h' = trace h @ fl \<and> (fl = [] \<or> (\<exists>q. fl = [Allocate q, Deallocate q]))
        \<and> failed_round (alloc L) fl (mem h) (mem h')"
    proof -
      from t consider (a) "trace h' = trace h" "allocate_node (alloc L) (mem h) = (Inl e, mem h')"
        | (c) it m where "trace h' = trace h @ [Allocate it, Deallocate it]"
            "allocate_node (alloc L) (mem h) = (Inr it, m)"
            "mem h' = deallocate_node (alloc L) it m"
        by blast
      then show ?thesis
      proof cases
        case a
        then show ?thesis by (intro exI [of _ "[]"]) (simp add: failed_round_def)
      next
        case c
        then show ?thesis
          by (intro exI [of _ "[Allocate it, Deallocate it]"]) (simp add: failed_round_def)
      qed
    qed
    ultimately show ?thesis using L' e r0(2) by blast
  next
    case (Inr it)
    have r': "ring h r (ps @ [])" using r by simp
    have ins': "insert_L E (hd ([] @ [r])) v L h = (Inr it, L', h')" using ins Inr by simp
    note I = insert_L_ring [OF r' ins']
    from insert_L_Inr [OF ins [unfolded Inr]] obtain p k where
      p: "decr h r = Some p"
      and i: "incr h' = (incr h)(it \<mapsto> r, p \<mapsto> it)"
      and d: "decr h' = (decr h)(it \<mapsto> p, r \<mapsto> it)"
      and k: "keys h' = (keys h)(it \<mapsto> k)"
      and t: "trace h' = trace h @ [Allocate it, Construct it]"
      and a: "allocate_node (alloc L) (mem h) = (Inr it, mem h')"
      by blast
    have "decr h (hd ([] @ [r])) = Some (last (r # ps))" by (rule ring_pred(1) [OF r'])
    then have pl: "p = last (r # ps)" using p by simp
    have pin: "p \<in> set (r # ps)" unfolding pl by (rule last_in_set) simp
    have nin: "it \<notin> set (r # ps)" by (rule ring_fresh [OF r I(3)])
    have "links h0 it = None \<and> keys h0 it = None" using same [OF nin] I(3,4) by simp
    then have fr': "list_all (\<lambda>a. links h0 a = None \<and> keys h0 a = None) (r # ps @ [it])"
      using fr by simp
    have same': "\<And>a. a \<notin> set (r # ps @ [it]) \<Longrightarrow> links h' a = links h0 a \<and> keys h' a = keys h0 a"
    proof -
      fix a assume a: "a \<notin> set (r # ps @ [it])"
      then have "a \<noteq> it" "a \<noteq> p" "a \<noteq> r" using pin by auto
      then have "incr h' a = incr h a" "decr h' a = decr h a" "keys h' a = keys h a"
        by (simp_all add: i d k)
      then have "links h' a = links h a" "keys h' a = keys h a" by (simp_all add: links_eq_iff)
      then show "links h' a = links h0 a \<and> keys h' a = keys h0 a" using same [of a] a by simp
    qed
    have "under_construction h0 r (ps @ [it]) h'"
      using I(1) fr' same' by (simp add: under_construction_def)
    then show ?thesis using t a I(2) Inr r0(3) by blast
  qed
qed

lemma alloc_construct_snoc:
  "concat (map (\<lambda>p. [Allocate p, Construct p]) (qs @ [it])) =
     concat (map (\<lambda>p. [Allocate p, Construct p]) qs) @ [Allocate it, Construct it]"
  by simp

text \<open>
  What a loop of \<open>push_back\<close> calls leaves behind, whether it runs to its end or stops at
  an exception: the list has grown by the nodes \<open>qs\<close>, which the allocator has handed
  out in this order, and the trace by their allocations and constructions, followed on
  an exception by what the failing round did (\<open>fl\<close>) to the trace and to the allocator.
\<close>

lemma fill_loop_uc:
  assumes "under_construction h0 r ps h" and "data L = r"
    and "fill_loop E n v L h = (rs, L', h')" and "rs \<noteq> Inl Undefined"
  shows "\<exists>qs fl m1. under_construction h0 r (ps @ qs) h' \<and> data L' = r \<and> alloc L' = alloc L
           \<and> trace h' = trace h @ concat (map (\<lambda>p. [Allocate p, Construct p]) qs) @ fl
           \<and> allocate_nodes (alloc L) qs (mem h) = Some m1
           \<and> (rs = Inr () \<longrightarrow> fl = [] \<and> length qs = n \<and> mem h' = m1)
           \<and> (rs \<noteq> Inr () \<longrightarrow> (\<exists>e. rs = Inl (Exception e)) \<and> length qs < n
                 \<and> (fl = [] \<or> (\<exists>q. fl = [Allocate q, Deallocate q]))
                 \<and> failed_round (alloc L) fl m1 (mem h'))"
  using assms
proof (induction n arbitrary: ps L h)
  case 0
  then have "rs = Inr ()" "L' = L" "h' = h" by simp_all
  then show ?case using "0.prems"(1,2)
    by (intro exI [of _ "[]"] exI [of _ "mem h"]) simp
next
  case (Suc n)
  obtain r1 L1 h1 where pb: "push_back E v L h = (r1, L1, h1)" by (cases "push_back E v L h")
  show ?case
  proof (cases r1)
    case (Inl f)
    with Suc.prems(3) pb have eq: "rs = r1" "L' = L1" "h' = h1" by simp_all
    with Suc.prems(4) have u1: "r1 \<noteq> Inl Undefined" by simp
    from push_back_uc [OF Suc.prems(1,2) pb u1] Inl
    have "under_construction h0 r ps h1" "L1 = L" "\<exists>e. r1 = Inl (Exception e)"
      "\<exists>fl. trace h1 = trace h @ fl \<and> (fl = [] \<or> (\<exists>q. fl = [Allocate q, Deallocate q]))
         \<and> failed_round (alloc L) fl (mem h) (mem h1)"
      by auto
    then obtain fl where "under_construction h0 r ps h1" "L1 = L" "\<exists>e. r1 = Inl (Exception e)"
      "trace h1 = trace h @ fl" "fl = [] \<or> (\<exists>q. fl = [Allocate q, Deallocate q])"
      "failed_round (alloc L) fl (mem h) (mem h1)"
      by blast
    then show ?thesis using eq Suc.prems(2) Inl
      by (intro exI [of _ "[]"] exI [of _ fl] exI [of _ "mem h"]) auto
  next
    case (Inr y)
    with Suc.prems(3) pb have rest: "fill_loop E n v L1 h1 = (rs, L', h')" by simp
    from push_back_uc [OF Suc.prems(1,2) pb] Inr obtain it where
      uc1: "under_construction h0 r (ps @ [it]) h1"
      and t1: "trace h1 = trace h @ [Allocate it, Construct it]"
      and a1: "allocate_node (alloc L) (mem h) = (Inr it, mem h1)"
      and L1: "L1 = L\<lparr>sz := sz L + 1\<rparr>"
      by auto
    have d1: "data L1 = r" using L1 Suc.prems(2) by simp
    from Suc.IH [OF uc1 d1 rest Suc.prems(4)] obtain qs fl m1 where
      R: "under_construction h0 r ((ps @ [it]) @ qs) h'" "data L' = r" "alloc L' = alloc L1"
      "trace h' = trace h1 @ concat (map (\<lambda>p. [Allocate p, Construct p]) qs) @ fl"
      "allocate_nodes (alloc L1) qs (mem h1) = Some m1"
      "rs = Inr () \<longrightarrow> fl = [] \<and> length qs = n \<and> mem h' = m1"
      "rs \<noteq> Inr () \<longrightarrow> (\<exists>e. rs = Inl (Exception e)) \<and> length qs < n
                 \<and> (fl = [] \<or> (\<exists>q. fl = [Allocate q, Deallocate q]))
                 \<and> failed_round (alloc L1) fl m1 (mem h')"
      by blast
    have A1: "alloc L1 = alloc L" using L1 by simp
    have "allocate_nodes (alloc L) (it # qs) (mem h) = Some m1"
      using a1 R(5) by (simp add: A1)
    then show ?thesis
      using R(1-4,6,7) L1 t1 unfolding A1
      by (intro exI [of _ "it # qs"] exI [of _ fl] exI [of _ m1]) auto
  qed
qed

lemma copy_loop_uc:
  assumes "under_construction h0 r ps h" and "data L = r"
    and "copy_loop E cend it L h = (rs, L', h')" and "rs \<noteq> Inl Undefined"
  shows "\<exists>qs fl m1. under_construction h0 r (ps @ qs) h' \<and> data L' = r \<and> alloc L' = alloc L
           \<and> trace h' = trace h @ concat (map (\<lambda>p. [Allocate p, Construct p]) qs) @ fl
           \<and> allocate_nodes (alloc L) qs (mem h) = Some m1
           \<and> (rs = Inr () \<longrightarrow> fl = [] \<and> mem h' = m1)
           \<and> (rs \<noteq> Inr () \<longrightarrow> (\<exists>e. rs = Inl (Exception e))
                 \<and> (fl = [] \<or> (\<exists>q. fl = [Allocate q, Deallocate q]))
                 \<and> failed_round (alloc L) fl m1 (mem h'))"
  using assms
proof (induction E cend it L h arbitrary: ps rule: copy_loop.induct)
  case (1 E cend it L h)
  note res = "1.prems"(3) [unfolded copy_loop.simps [of E cend it L h]]
  show ?case
  proof (cases "it = cend")
    case True
    with res have "rs = Inr ()" "L' = L" "h' = h" by simp_all
    then show ?thesis using "1.prems"(1,2)
      by (intro exI [of _ "[]"] exI [of _ "mem h"]) simp
  next
    case False
    with res "1.prems"(4) obtain v where v: "deref h it = Some v"
      by (cases "deref h it") auto
    obtain r1 L1 h1 where pb: "push_back E v L h = (r1, L1, h1)" by (cases "push_back E v L h")
    show ?thesis
    proof (cases r1)
      case (Inl f)
      with res False v pb have eq: "rs = r1" "L' = L1" "h' = h1" by simp_all
      with "1.prems"(4) have u1: "r1 \<noteq> Inl Undefined" by simp
      from push_back_uc [OF "1.prems"(1,2) pb u1] Inl
      have "under_construction h0 r ps h1" "L1 = L" "\<exists>e. r1 = Inl (Exception e)"
        "\<exists>fl. trace h1 = trace h @ fl \<and> (fl = [] \<or> (\<exists>q. fl = [Allocate q, Deallocate q]))
           \<and> failed_round (alloc L) fl (mem h) (mem h1)"
        by auto
      then obtain fl where "under_construction h0 r ps h1" "L1 = L" "\<exists>e. r1 = Inl (Exception e)"
        "trace h1 = trace h @ fl" "fl = [] \<or> (\<exists>q. fl = [Allocate q, Deallocate q])"
        "failed_round (alloc L) fl (mem h) (mem h1)"
        by blast
      then show ?thesis using eq "1.prems"(2) Inl
        by (intro exI [of _ "[]"] exI [of _ fl] exI [of _ "mem h"]) auto
    next
      case (Inr y)
      then have y: "y = ()" by simp
      from push_back_uc [OF "1.prems"(1,2) pb] Inr obtain nw where
        uc1: "under_construction h0 r (ps @ [nw]) h1"
        and t1: "trace h1 = trace h @ [Allocate nw, Construct nw]"
        and a1: "allocate_node (alloc L) (mem h) = (Inr nw, mem h1)"
        and L1: "L1 = L\<lparr>sz := sz L + 1\<rparr>"
        by auto
      have d1: "data L1 = r" using L1 "1.prems"(2) by simp
      from res False v pb Inr "1.prems"(4) obtain it' where it': "incr h1 it = Some it'"
        by (cases "incr h1 it") auto
      with res False v pb Inr have rest: "copy_loop E cend it' L1 h1 = (rs, L', h')" by simp
      have pb': "(Inr (), L1, h1) = push_back E v L h" using pb Inr by simp
      from "1.IH" [OF False v pb' refl refl it' uc1 d1 rest "1.prems"(4)] obtain qs fl m1 where
        R: "under_construction h0 r ((ps @ [nw]) @ qs) h'" "data L' = r" "alloc L' = alloc L1"
        "trace h' = trace h1 @ concat (map (\<lambda>p. [Allocate p, Construct p]) qs) @ fl"
        "allocate_nodes (alloc L1) qs (mem h1) = Some m1"
        "rs = Inr () \<longrightarrow> fl = [] \<and> mem h' = m1"
        "rs \<noteq> Inr () \<longrightarrow> (\<exists>e. rs = Inl (Exception e))
                 \<and> (fl = [] \<or> (\<exists>q. fl = [Allocate q, Deallocate q]))
                 \<and> failed_round (alloc L1) fl m1 (mem h')"
        by blast
      have A1: "alloc L1 = alloc L" using L1 by simp
      have "allocate_nodes (alloc L) (nw # qs) (mem h) = Some m1"
        using a1 R(5) by (simp add: A1)
      then show ?thesis
        using R(1-4,6,7) L1 t1 unfolding A1
        by (intro exI [of _ "nw # qs"] exI [of _ fl] exI [of _ m1]) auto
    qed
  qed
qed

text \<open>The handler of the constructors undoes the construction.\<close>

lemma ctor_guard_Exception:
  assumes uc: "under_construction h0 r ps h" and dr: "data L = r"
  shows "\<exists>h'. ctor_guard E (Inl (Exception e), L, h) = (Inl (Exception e), h')
           \<and> links h' = links h0 \<and> keys h' = keys h0 \<and> mem h' = mem (snd (destroy E L h))
           \<and> trace h' = trace h @ concat (map (\<lambda>p. [Destroy p, Deallocate p]) ps)
           \<and> mem h' = deallocate_nodes (alloc L) ps (mem h)"
proof -
  have r: "ring h (data L) ps" and fr: "list_all (\<lambda>a. links h0 a = None \<and> keys h0 a = None) (r # ps)"
    and same: "\<And>a. a \<notin> set (r # ps) \<Longrightarrow> links h a = links h0 a \<and> keys h a = keys h0 a"
    using uc dr by (auto simp: under_construction_def)
  from destroy_ring [OF r, of E] obtain h1 where
    d: "destroy E L h = (Inr (), h1)"
    and l1: "links h1 = (\<lambda>a. if a \<in> set ps then None else links h a)"
    and k1: "keys h1 = (\<lambda>a. if a \<in> set ps then None else keys h a)"
    and t1: "trace h1 = trace h @ concat (map (\<lambda>x. [Destroy x, Deallocate x]) ps)"
    and m1: "mem h1 = deallocate_nodes (alloc L) ps (mem h)"
    by blast
  let ?h' = "h1\<lparr>links := (links h1)(data L := None)\<rparr>"
  have g: "ctor_guard E (Inl (Exception e), L, h) = (Inl (Exception e), ?h')"
    by (simp add: ctor_guard_def d)
  have kr: "keys h r = None" using r dr by (simp add: ring_def)
  have "links ?h' = links h0"
  proof
    fix a show "links ?h' a = links h0 a"
      using fr same [of a] by (auto simp: l1 dr list_all_iff)
  qed
  moreover have "keys ?h' = keys h0"
  proof
    fix a show "keys ?h' a = keys h0 a"
      using fr same [of a] kr by (cases "a = r") (auto simp: k1 list_all_iff)
  qed
  ultimately show ?thesis using g t1 d m1 by auto
qed

lemma destroy_loop_not_Exception:
  "fst (destroy_loop E A s it h) \<noteq> Inl (Exception e)"
proof (induction E A s it h rule: destroy_loop.induct)
  case (1 E A s it h)
  show ?case
    by (subst destroy_loop.simps) (auto split: option.splits dest: "1.IH")
qed

lemma ctor_guard_result:
  assumes "ctor_guard E (rs, L, h) = (Inl (Exception e), h')"
  shows "rs = Inl (Exception e)"
proof (cases rs)
  case (Inl f)
  show ?thesis
  proof (cases f)
    case (Exception e')
    have "\<And>it h1. destroy_loop E (alloc L) (data L) it h \<noteq> (Inl (Exception e), h1)"
      using destroy_loop_not_Exception [of E "alloc L" "data L" _ h e] by (metis fst_conv)
    with assms Inl Exception show ?thesis
      by (auto simp: ctor_guard_def destroy_def split: prod.splits sum.splits option.splits)
  next
    case Undefined
    with assms Inl show ?thesis by (simp add: ctor_guard_def)
  qed
next
  case (Inr u)
  with assms show ?thesis by (simp add: ctor_guard_def)
qed

subsection \<open>emplace\_back\<close>

text \<open>
  \<open>emplace_back()\<close> is \<open>push_back(value)\<close> for an element type whose copy constructor
  is the default constructor of \<open>T\<close>: the two bodies differ in that call alone.
\<close>

lemma traits_construct_default_eq:
  "traits_construct_default E it p n h =
     traits_construct (E\<lparr>copy_ctor := \<lambda>_. default_ctor E\<rparr>) it p n v h"
  by (simp add: traits_construct_default_def traits_construct_def)

lemma emplace_back_eq:
  "emplace_back E L h = push_back (E\<lparr>copy_ctor := \<lambda>_. default_ctor E\<rparr>) v L h"
proof -
  let ?E = "E\<lparr>copy_ctor := \<lambda>_. default_ctor E\<rparr>"
  obtain ra h1 where a: "traits_allocate (alloc L) h = (ra, h1)"
    by (cases "traits_allocate (alloc L) h")
  show ?thesis
  proof (cases ra)
    case (Inl e)
    with a show ?thesis
      by (simp add: emplace_back_def push_back_def insert_L_def end_L_def drop_result_def)
  next
    case (Inr it)
    show ?thesis
    proof (cases "links h1 (data L)")
      case None
      with a Inr show ?thesis
        by (simp add: emplace_back_def push_back_def insert_L_def end_L_def drop_result_def)
    next
      case (Some b)
      obtain rc h2 where c: "traits_construct ?E it (prev b) (data L) v h1 = (rc, h2)"
        by (cases "traits_construct ?E it (prev b) (data L) v h1")
      then have c': "traits_construct_default E it (prev b) (data L) h1 = (rc, h2)"
        by (simp add: traits_construct_default_eq [of E it "prev b" "data L" h1 v])
      show ?thesis
        using a Inr Some c c'
        by (simp add: emplace_back_def push_back_def insert_L_def end_L_def drop_result_def
                 split: sum.splits fault.splits option.splits)
    qed
  qed
qed

lemma emplace_loop_eq:
  "emplace_loop E n L h = fill_loop (E\<lparr>copy_ctor := \<lambda>_. default_ctor E\<rparr>) n v L h"
  by (induction n arbitrary: L h)
     (simp_all add: emplace_back_eq [of E _ _ v] split: prod.splits sum.splits)

lemma traits_destroy_dtor:
  "dtor E' = dtor E \<Longrightarrow> traits_destroy E' it h = traits_destroy E it h"
  by (simp add: traits_destroy_def split: option.splits)

lemma destroy_loop_dtor:
  "dtor E' = dtor E \<Longrightarrow> destroy_loop E' A s it h = destroy_loop E A s it h"
proof (induction E A s it h rule: destroy_loop.induct)
  case (1 E A s it h)
  note d = traits_destroy_dtor [OF "1.prems", of it h]
  show ?case
  proof (cases "it = s")
    case True
    then show ?thesis by (simp add: destroy_loop.simps)
  next
    case False
    show ?thesis
    proof (cases "links h it")
      case None
      with False show ?thesis by (simp add: destroy_loop.simps [of _ A s it h])
    next
      case (Some b)
      show ?thesis
      proof (cases "traits_destroy E it h")
        case None
        with False Some d show ?thesis by (simp add: destroy_loop.simps [of _ A s it h])
      next
        case h1: (Some h1)
        from "1.IH" [OF False Some h1 "1.prems"] False Some h1 d show ?thesis
          by (simp add: destroy_loop.simps [of _ A s it h])
      qed
    qed
  qed
qed

lemma ctor_guard_dtor:
  assumes "dtor E' = dtor E"
  shows "ctor_guard E' x = ctor_guard E x"
proof -
  have d: "\<And>L h. destroy E' L h = destroy E L h"
    by (simp add: destroy_def destroy_loop_dtor [OF assms] split: option.splits)
  show ?thesis unfolding ctor_guard_def d ..
qed

lemma List_count_eq:
  "List_count E count A this h =
     List_fill (E\<lparr>copy_ctor := \<lambda>_. default_ctor E\<rparr>) count v A this h"
proof -
  have "dtor (E\<lparr>copy_ctor := \<lambda>_. default_ctor E\<rparr>) = dtor E" by simp
  note g = ctor_guard_dtor [OF this]
  show ?thesis
    by (simp add: List_count_def List_fill_def emplace_loop_eq [of E _ _ _ v] g
             split: option.splits)
qed

subsection \<open>Operations under their preconditions are defined\<close>

text \<open>
  On a well-formed list \<open>pop_back\<close> and \<open>pop_front\<close> of a non-empty list and \<open>erase\<close>
  of a node return, \<open>clear\<close> returns, and \<open>insert\<close> at a position returns or throws
  as long as the allocator does not hand out the storage of a live object.
\<close>

lemma pop_back_nonempty:
  assumes r: "ring h (data L) (ys @ [x])"
  shows "\<exists>h'. pop_back E L h = (Inr (), L\<lparr>sz := sz L - 1\<rparr>, h') \<and> ring h' (data L) ys"
proof -
  have "decr h (hd ([] @ [data L])) = Some (last (data L # ys @ [x]))"
    by (rule ring_pred(1) [of h "data L" "ys @ [x]" "[]", simplified append_Nil2, OF r])
  then have l: "decr h (end_L L) = Some x" by (simp add: end_L_def)
  from erase_node [OF r, of E L] obtain k h' where
    e: "erase E x L h = (Inr (hd ([] @ [data L])), L\<lparr>sz := sz L - 1\<rparr>, h')"
    and i: "incr h' = ((incr h)(last (data L # ys) \<mapsto> hd ([] @ [data L])))(x := None)"
    and d: "decr h' = ((decr h)(hd ([] @ [data L]) \<mapsto> last (data L # ys)))(x := None)"
    and k: "keys h' = (keys h)(x := None)"
    by blast
  have "ring h' (data L) (ys @ [])" by (rule ring_erase [OF r i d k])
  then show ?thesis using e l by (simp add: pop_back_def drop_result_def)
qed

lemma pop_front_nonempty:
  assumes r: "ring h (data L) (x # zs)"
  shows "\<exists>h'. pop_front E L h = (Inr (), L\<lparr>sz := sz L - 1\<rparr>, h') \<and> ring h' (data L) zs"
proof -
  have r': "ring h (data L) ([] @ x # zs)" using r by simp
  have "incr h (last [data L]) = Some (hd ((x # zs) @ [data L]))"
    using ring_pred(2) [of h "data L" "[]" "x # zs"] r by simp
  then have b: "begin_L L h = Some x" by (simp add: begin_L_def incr_def)
  from erase_node [OF r', of E L] obtain k h' where
    e: "erase E x L h = (Inr (hd (zs @ [data L])), L\<lparr>sz := sz L - 1\<rparr>, h')"
    and i: "incr h' = ((incr h)(last (data L # []) \<mapsto> hd (zs @ [data L])))(x := None)"
    and d: "decr h' = ((decr h)(hd (zs @ [data L]) \<mapsto> last (data L # [])))(x := None)"
    and k: "keys h' = (keys h)(x := None)"
    by blast
  have "ring h' (data L) ([] @ zs)" by (rule ring_erase [OF r' i d k])
  then show ?thesis using e b by (simp add: pop_front_def drop_result_def)
qed

lemma insert_L_defined:
  assumes r: "ring h (data L) (ys @ zs)"
    and a: "\<And>it m. allocate_node (alloc L) (mem h) = (Inr it, m) \<Longrightarrow>
              links h it = None \<and> keys h it = None"
  shows "fst (insert_L E (hd (zs @ [data L])) v L h) \<noteq> Inl Undefined"
proof -
  define q where "q = hd (zs @ [data L])"
  define p where "p = last (data L # ys)"
  have dq: "decr h q = Some p" and ip: "incr h p = Some q"
    using ring_pred [OF r] by (simp_all add: p_def q_def)
  obtain ra h1 where al: "traits_allocate (alloc L) h = (ra, h1)"
    by (cases "traits_allocate (alloc L) h")
  show ?thesis
  proof (cases ra)
    case (Inl e)
    with al show ?thesis by (simp add: insert_L_def)
  next
    case (Inr it)
    note A = traits_allocate_Inr [OF al [unfolded Inr]]
    have h1: "links h1 = links h" "keys h1 = keys h" by (subst A(2), simp)+
    have i1: "incr h1 = incr h" "decr h1 = decr h"
      using h1(1) by (auto simp: incr_def decr_def fun_eq_iff)
    have fr: "links h1 it = None" "keys h1 it = None" using a [OF A(1)] h1 by simp_all
    obtain b where b: "links h1 q = Some b" "prev b = p"
      using dq by (auto simp: decr_def h1)
    have qit: "q \<noteq> it" using b(1) fr(1) by auto
    have pit: "p \<noteq> it" using ip fr(1) h1(1) by (auto simp: incr_def)
    obtain rc h2 where c: "traits_construct E it p q v h1 = (rc, h2)"
      by (cases "traits_construct E it p q v h1")
    show ?thesis
    proof (cases rc)
      case (Inl f)
      then have "f \<noteq> Undefined"
        using c fr by (auto simp: traits_construct_def split: prod.splits sum.splits)
      then obtain e where "f = Exception e" by (cases f) auto
      with al Inr b c Inl show ?thesis by (simp add: insert_L_def q_def [symmetric])
    next
      case rc: (Inr u)
      note C = traits_construct_Inr [OF c [unfolded rc]]
      have "decr h2 q = Some p" using dq qit by (simp add: C(5) i1)
      then obtain b2 where b2: "links h2 q = Some b2" "prev b2 = p" by (auto simp: decr_def)
      have "incr h2 p = Some q" using ip pit by (simp add: C(4) i1)
      then have "set_next p it h2 \<noteq> None" by (simp add: set_next_None flip: incr_None_iff)
      then obtain h3 where s3: "set_next p it h2 = Some h3" by blast
      have "decr h3 q = Some p" using \<open>decr h2 q = Some p\<close> by (simp add: set_next_Some(3) [OF s3])
      then have "set_prev q it h3 \<noteq> None" by (simp add: set_prev_None flip: decr_None_iff)
      then obtain h4 where s4: "set_prev q it h3 = Some h4" by blast
      show ?thesis
        using al Inr b c rc b2 s3 s4 by (simp add: insert_L_def q_def [symmetric])
    qed
  qed
qed

subsection \<open>Running the model on examples\<close>

lemma fill_loop_numeral:
  "fill_loop E (numeral k) v L h =
     (case push_back E v L h of
        (Inl f, L1, h1) \<Rightarrow> (Inl f, L1, h1)
      | (Inr _, L1, h1) \<Rightarrow> fill_loop E (pred_numeral k) v L1 h1)"
  by (simp add: numeral_eq_Suc)

lemma fill_loop_1:
  "fill_loop E 1 v L h =
     (case push_back E v L h of
        (Inl f, L1, h1) \<Rightarrow> (Inl f, L1, h1)
      | (Inr _, L1, h1) \<Rightarrow> fill_loop E 0 v L1 h1)"
  by simp

lemma emplace_loop_numeral:
  "emplace_loop E (numeral k) L h =
     (case emplace_back E L h of
        (Inl f, L1, h1) \<Rightarrow> (Inl f, L1, h1)
      | (Inr _, L1, h1) \<Rightarrow> emplace_loop E (pred_numeral k) L1 h1)"
  by (simp add: numeral_eq_Suc)

lemma emplace_loop_1:
  "emplace_loop E 1 L h =
     (case emplace_back E L h of
        (Inl f, L1, h1) \<Rightarrow> (Inl f, L1, h1)
      | (Inr _, L1, h1) \<Rightarrow> emplace_loop E 0 L1 h1)"
  by simp

lemma advance_numeral:
  "advance h (numeral k) it =
     (case incr h it of None \<Rightarrow> None | Some it' \<Rightarrow> advance h (pred_numeral k) it')"
  by (simp add: numeral_eq_Suc)

lemma advance_1:
  "advance h 1 it = (case incr h it of None \<Rightarrow> None | Some it' \<Rightarrow> advance h 0 it')"
  by simp

lemmas model_defs =
  int_elem_def Counted_def Node_t_def empty_heap_def arena_def StackAllocator_def
  allocate_def deallocate_def padding_of_def
  List_init_def List_fill_def List_count_def List_copy_def ctor_guard_def
  push_back_def push_front_def pop_back_def pop_front_def insert_L_def emplace_back_def erase_def
  drop_result_def traits_allocate_def traits_deallocate_def traits_construct_def
  traits_construct_default_def traits_destroy_def
  set_next_def set_prev_def begin_L_def end_L_def decr_def incr_def deref_def position_def
  clear_def destroy_def destroy_loop.simps copy_loop.simps Let_def result_def
  operator_assign_def swap_data_def assign_fixups_def List_dtor_def
  fill_loop_numeral fill_loop_1 emplace_loop_numeral emplace_loop_1 advance_numeral advance_1

subsection \<open>The constructors\<close>

lemma List_init_wf:
  assumes "List_init A this h0 = Some (L, h)"
  shows "wf_list L h"
  using List_init_uc(1,2) [OF assms]
  by (auto simp: wf_list_def under_construction_def intro!: exI [of _ "[]"])

lemma unwoundI:
  assumes uc: "under_construction h r qs h1" and dL: "data L = r"
    and t0: "trace h0 = trace h" and m0: "mem h0 = mem h"
    and t1: "trace h1 = trace h0 @ concat (map (\<lambda>p. [Allocate p, Construct p]) qs) @ fl"
    and a: "allocate_nodes (alloc L) qs (mem h0) = Some m1"
    and f: "failed_round (alloc L) fl m1 (mem h1)"
    and g: "ctor_guard E (Inl (Exception e), L, h1) = (rs, h')"
  shows "rs = Inl (Exception e) \<and> unwound (alloc L) (length qs) h h'"
proof -
  from ctor_guard_Exception [OF uc dL, of E e] g
  have "rs = Inl (Exception e)" "links h' = links h" "keys h' = keys h"
    "trace h' = trace h1 @ concat (map (\<lambda>p. [Destroy p, Deallocate p]) qs)"
    "mem h' = deallocate_nodes (alloc L) qs (mem h1)"
    by auto
  then show ?thesis
    using t0 m0 t1 a f unfolding unwound_def
    by (intro conjI exI [of _ qs] exI [of _ fl] exI [of _ m1] exI [of _ "mem h1"]) simp_all
qed

lemma List_fill_unwound:
  assumes "List_fill E count v A this h = (Inl (Exception e), h')"
  shows "\<exists>k < unat count. unwound A k h h'"
proof -
  from assms obtain L h0 where i: "List_init A this h = Some (L, h0)"
    and g: "ctor_guard E (fill_loop E (unat count) v L h0) = (Inl (Exception e), h')"
    by (auto simp: List_fill_def split: option.splits)
  obtain rs L1 h1 where l: "fill_loop E (unat count) v L h0 = (rs, L1, h1)"
    by (cases "fill_loop E (unat count) v L h0")
  from ctor_guard_result [OF g [unfolded l]] have rs: "rs = Inl (Exception e)" .
  note I = List_init_uc [OF i]
  have dL: "data L = this" and aL: "alloc L = A" using I(2) by simp_all
  have m0: "mem h0 = mem h" by (subst I(6)) simp
  from fill_loop_uc [OF I(1) dL l] rs obtain qs fl m1 where
    R: "under_construction h this ([] @ qs) h1" "data L1 = this" "alloc L1 = alloc L"
    "trace h1 = trace h0 @ concat (map (\<lambda>p. [Allocate p, Construct p]) qs) @ fl"
    "allocate_nodes (alloc L) qs (mem h0) = Some m1"
    "length qs < unat count" "failed_round (alloc L) fl m1 (mem h1)"
    by auto
  from unwoundI [OF R(1) [simplified] R(2) I(3) m0 R(4) R(5) [folded R(3)] R(7) [folded R(3)]
      g [unfolded l rs]]
  have "unwound A (length qs) h h'" by (simp add: R(3) aL)
  then show ?thesis using R(6) by blast
qed

lemma List_copy_unwound:
  assumes "List_copy E src A this h = (Inl (Exception e), h')"
  shows "\<exists>k. unwound A k h h'"
proof -
  from assms obtain L h0 it where i: "List_init A this h = Some (L, h0)"
    and g: "ctor_guard E (copy_loop E (end_L src) it L h0) = (Inl (Exception e), h')"
    by (auto simp: List_copy_def split: option.splits)
  obtain rs L1 h1 where l: "copy_loop E (end_L src) it L h0 = (rs, L1, h1)"
    by (cases "copy_loop E (end_L src) it L h0")
  from ctor_guard_result [OF g [unfolded l]] have rs: "rs = Inl (Exception e)" .
  note I = List_init_uc [OF i]
  have dL: "data L = this" and aL: "alloc L = A" using I(2) by simp_all
  have m0: "mem h0 = mem h" by (subst I(6)) simp
  from copy_loop_uc [OF I(1) dL l] rs obtain qs fl m1 where
    R: "under_construction h this ([] @ qs) h1" "data L1 = this" "alloc L1 = alloc L"
    "trace h1 = trace h0 @ concat (map (\<lambda>p. [Allocate p, Construct p]) qs) @ fl"
    "allocate_nodes (alloc L) qs (mem h0) = Some m1"
    "failed_round (alloc L) fl m1 (mem h1)"
    by auto
  from unwoundI [OF R(1) [simplified] R(2) I(3) m0 R(4) R(5) [folded R(3)] R(6) [folded R(3)]
      g [unfolded l rs]]
  have "unwound A (length qs) h h'" by (simp add: R(3) aL)
  then show ?thesis by blast
qed

lemma unwound_rolled_back:
  assumes "unwound A k h h'"
  shows "rolled_back k h h'"
proof -
  from assms obtain ps fl m1 m2 where
    R: "links h' = links h" "keys h' = keys h" "length ps = k" "failed_round A fl m1 m2"
    "trace h' = trace h @ concat (map (\<lambda>p. [Allocate p, Construct p]) ps) @ fl
                  @ concat (map (\<lambda>p. [Destroy p, Deallocate p]) ps)"
    unfolding unwound_def by blast
  from R(4) have "fl = [] \<or> (\<exists>q. fl = [Allocate q, Deallocate q])"
    by (auto simp: failed_round_def)
  then show ?thesis
    using R(1,2,3,5) unfolding rolled_back_def
    by (intro conjI exI [of _ ps] exI [of _ fl]) simp_all
qed

lemma List_copy_Exception:
  assumes "List_copy E src A this h = (Inl (Exception e), h')"
  shows "\<exists>k. rolled_back k h h'"
  using List_copy_unwound [OF assms] unwound_rolled_back by blast

text \<open>
  C4. When \<open>List(count, value)\<close>, \<open>List(count)\<close> or the copy constructor leaves by an
  exception, the \<open>k\<close> nodes built so far (with \<open>k\<close> below \<open>count\<close>) have been destroyed
  and each of them has been given back to the allocator by \<open>deallocate\<close>; the storage of
  the node whose element was not constructed has been given back by \<open>deallocate\<close> and
  never destroyed; the allocator is in the state that these calls of \<open>allocate\<close> and
  \<open>deallocate\<close> leave it in; and the store holds exactly the objects it held before the
  call: no key or link of the new list remains.
\<close>

theorem bulk_constructors_roll_back:
  "(List_fill E count v A this h = (Inl (Exception e), h') \<longrightarrow>
      (\<exists>k < unat count. unwound A k h h'))
   \<and> (List_count E count A this h = (Inl (Exception e), h') \<longrightarrow>
      (\<exists>k < unat count. unwound A k h h'))
   \<and> (List_copy E src A this h = (Inl (Exception e), h') \<longrightarrow>
      (\<exists>k. unwound A k h h'))
   \<and> (List_copy_ctor E src this h = (Inl (Exception e), h') \<longrightarrow>
      (\<exists>k. unwound (alloc src) k h h'))"
proof (intro conjI impI)
  assume "List_fill E count v A this h = (Inl (Exception e), h')"
  then show "\<exists>k < unat count. unwound A k h h'" by (rule List_fill_unwound)
next
  assume "List_count E count A this h = (Inl (Exception e), h')"
  then have "List_fill (E\<lparr>copy_ctor := \<lambda>_. default_ctor E\<rparr>) count undefined A this h
      = (Inl (Exception e), h')"
    by (simp add: List_count_eq [of E count A this h undefined])
  then show "\<exists>k < unat count. unwound A k h h'" by (rule List_fill_unwound)
next
  assume "List_copy E src A this h = (Inl (Exception e), h')"
  then show "\<exists>k. unwound A k h h'" by (rule List_copy_unwound)
next
  assume "List_copy_ctor E src this h = (Inl (Exception e), h')"
  then show "\<exists>k. unwound (alloc src) k h h'"
    unfolding List_copy_ctor_def by (rule List_copy_unwound)
qed

subsection \<open>Copy assignment\<close>

lemma List_dtor_not_Exception: "List_dtor E L h \<noteq> (Inl (Exception e), h')"
proof -
  have "\<And>it h1. destroy_loop E (alloc L) (data L) it h \<noteq> (Inl (Exception e), h1)"
    using destroy_loop_not_Exception [of E "alloc L" "data L" _ h e] by (metis fst_conv)
  then show ?thesis
    by (auto simp: List_dtor_def destroy_def split: prod.splits sum.splits option.splits)
qed

text \<open>
  C3. If \<open>A = B\<close> leaves by an exception, the exception came out of building the
  temporary copy, the list object \<open>A\<close> (allocator, sentinel address, size) is the one
  before the call, and every link and key in the store is as it was: the nodes of \<open>A\<close>
  are the same objects with the same contents, and the temporary's nodes are gone.
\<close>

theorem copy_assignment_strong_guarantee:
  assumes "operator_assign E src r this h = (Inl (Exception e), L', h')"
  shows "L' = this \<and> links h' = links h \<and> keys h' = keys h
    \<and> List_copy E src (if pocca (alloc src) then alloc src else alloc this) r h
        = (Inl (Exception e), h')
    \<and> (\<exists>k. rolled_back k h h')"
proof -
  let ?A = "if pocca (alloc src) then alloc src else alloc this"
  obtain rc h1 where c: "List_copy E src ?A r h = (rc, h1)" by (cases "List_copy E src ?A r h")
  show ?thesis
  proof (cases rc)
    case (Inl f)
    with assms c have eq: "f = Exception e" "L' = this" "h' = h1"
      by (simp_all add: operator_assign_def)
    from List_copy_Exception [OF c [unfolded Inl eq(1)]] obtain k where
      k: "rolled_back k h h1" by blast
    then have "links h1 = links h" "keys h1 = keys h" by (simp_all add: rolled_back_def)
    then show ?thesis using eq c Inl k by auto
  next
    case (Inr res)
    with assms c show ?thesis
      by (auto simp: operator_assign_def Let_def List_dtor_not_Exception
               split: option.splits prod.splits sum.splits)
  qed
qed

subsection \<open>insert\<close>

text \<open>
  C5. \<open>insert\<close> before a position of a well-formed list. If it leaves by an exception,
  the list object, every link and every key are as before; either the allocation failed,
  or the element's constructor threw and the node just allocated was deallocated. If it
  returns, exactly \<open>next\<close> of the predecessor and \<open>prev\<close> of the position have been
  redirected to the new node, whose own links point at the two; the ring is the old one
  with the new node before the position, and \<open>sz\<close> has grown by one. \<open>push_back\<close> and
  \<open>push_front\<close> are \<open>insert\<close> at \<open>end()\<close> and \<open>begin()\<close>.
\<close>

theorem insert_atomic:
  assumes r: "ring h (data L) (ys @ zs)"
    and res: "insert_L E (hd (zs @ [data L])) v L h = (rs, L', h')"
  shows "(\<forall>e. rs = Inl (Exception e) \<longrightarrow>
            L' = L \<and> links h' = links h \<and> keys h' = keys h \<and>
            ((allocate_node (alloc L) (mem h) = (Inl e, mem h') \<and> trace h' = trace h)
             \<or> (\<exists>it m. allocate_node (alloc L) (mem h) = (Inr it, m)
                       \<and> copy_ctor E v (world h) = (Inl e, world h')
                       \<and> mem h' = deallocate_node (alloc L) it m
                       \<and> trace h' = trace h @ [Allocate it, Deallocate it])))
    \<and> (\<forall>it. rs = Inr it \<longrightarrow>
            links h it = None
            \<and> incr h' = (incr h)(it \<mapsto> hd (zs @ [data L]), last (data L # ys) \<mapsto> it)
            \<and> decr h' = (decr h)(it \<mapsto> last (data L # ys), hd (zs @ [data L]) \<mapsto> it)
            \<and> (\<exists>k. copy_ctor E v (world h) = (Inr k, world h') \<and> keys h' = (keys h)(it \<mapsto> k))
            \<and> ring h' (data L') (ys @ it # zs)
            \<and> L' = L\<lparr>sz := sz L + 1\<rparr>)
    \<and> push_back E v L h = drop_result (insert_L E (hd ([] @ [data L])) v L h)
    \<and> push_front E v L h = drop_result (insert_L E (hd ((ys @ zs) @ [data L])) v L h)"
proof (intro conjI allI impI)
  fix e assume "rs = Inl (Exception e)"
  from insert_L_Exception [OF res [unfolded this]]
  show "L' = L" "links h' = links h" "keys h' = keys h"
    "(allocate_node (alloc L) (mem h) = (Inl e, mem h') \<and> trace h' = trace h)
             \<or> (\<exists>it m. allocate_node (alloc L) (mem h) = (Inr it, m)
                       \<and> copy_ctor E v (world h) = (Inl e, world h')
                       \<and> mem h' = deallocate_node (alloc L) it m
                       \<and> trace h' = trace h @ [Allocate it, Deallocate it])"
    by auto
next
  fix it assume rs: "rs = Inr it"
  note I = insert_L_ring [OF r res [unfolded rs]]
  from insert_L_Inr [OF res [unfolded rs]] obtain p k where
    p: "decr h (hd (zs @ [data L])) = Some p"
    and i: "incr h' = (incr h)(it \<mapsto> hd (zs @ [data L]), p \<mapsto> it)"
    and d: "decr h' = (decr h)(it \<mapsto> p, hd (zs @ [data L]) \<mapsto> it)"
    and k: "copy_ctor E v (world h) = (Inr k, world h')" "keys h' = (keys h)(it \<mapsto> k)"
    by blast
  have pl: "p = last (data L # ys)" using ring_pred(1) [OF r] p by simp
  show "links h it = None" by (rule I(3))
  show "incr h' = (incr h)(it \<mapsto> hd (zs @ [data L]), last (data L # ys) \<mapsto> it)"
    using i unfolding pl .
  show "decr h' = (decr h)(it \<mapsto> last (data L # ys), hd (zs @ [data L]) \<mapsto> it)"
    using d unfolding pl .
  show "\<exists>k. copy_ctor E v (world h) = (Inr k, world h') \<and> keys h' = (keys h)(it \<mapsto> k)"
    using k by blast
  show "L' = L\<lparr>sz := sz L + 1\<rparr>" by (rule I(2))
  then show "ring h' (data L') (ys @ it # zs)" using I(1) by simp
next
  show "push_back E v L h = drop_result (insert_L E (hd ([] @ [data L])) v L h)"
    by (simp add: push_back_def end_L_def)
next
  have "begin_L L h = Some (hd ((ys @ zs) @ [data L]))"
    using ring_pred(2) [of h "data L" "[]" "ys @ zs"] r by (simp add: begin_L_def incr_def)
  then show "push_front E v L h = drop_result (insert_L E (hd ((ys @ zs) @ [data L])) v L h)"
    by (simp add: push_front_def)
qed

text \<open>
  C9. A successful \<open>insert\<close> before a position of a well-formed list returns an iterator
  to the new node: dereferencing it gives the element that was copy-constructed from
  \<open>value\<close>, incrementing it gives the position, and decrementing the position gives it.
\<close>

theorem insert_returns_new_node:
  assumes r: "ring h (data L) (ys @ zs)"
    and res: "insert_L E (hd (zs @ [data L])) v L h = (Inr it, L', h')"
  shows "(\<exists>k. copy_ctor E v (world h) = (Inr k, world h') \<and> deref h' it = Some k)
    \<and> incr h' it = Some (hd (zs @ [data L]))
    \<and> decr h' (hd (zs @ [data L])) = Some it
    \<and> decr h' it = Some (last (data L # ys))"
proof -
  let ?q = "hd (zs @ [data L])" and ?p = "last (data L # ys)"
  from insert_L_Inr [OF res] obtain p k where
    p: "decr h ?q = Some p" and f: "links h it = None"
    and i: "incr h' = (incr h)(it \<mapsto> ?q, p \<mapsto> it)"
    and d: "decr h' = (decr h)(it \<mapsto> p, ?q \<mapsto> it)"
    and k: "copy_ctor E v (world h) = (Inr k, world h')" "keys h' = (keys h)(it \<mapsto> k)"
    by blast
  have pl: "p = ?p" using ring_pred(1) [OF r] p by simp
  have nin: "it \<notin> set (data L # ys @ zs)" by (rule ring_fresh [OF r f])
  have "?p \<in> set (data L # ys)" by (rule last_in_set) simp
  then have pit: "?p \<noteq> it" using nin by auto
  have "?q \<in> set (zs @ [data L])" by (rule hd_in_set) simp
  then have qit: "?q \<noteq> it" using nin by auto
  have "deref h' it = Some k" by (simp add: deref_def k(2))
  moreover have "incr h' it = Some ?q" using pit by (simp add: i pl)
  moreover have "decr h' ?q = Some it" by (simp add: d)
  moreover have "decr h' it = Some ?p" using qit by (simp add: d pl)
  ultimately show ?thesis using k(1) by blast
qed

subsection \<open>The size invariant\<close>

text \<open>
  C7. Start from a well-formed list (a newly constructed one is) and run any sequence of
  \<open>push_back\<close>, \<open>push_front\<close>, \<open>insert\<close>, \<open>pop_back\<close>, \<open>pop_front\<close>, \<open>erase\<close> and \<open>clear\<close>
  none of which has undefined behaviour. Then iterating from \<open>begin()\<close> to \<open>end()\<close> ends,
  and \<open>size()\<close> is the number of elements it visits.
\<close>

theorem size_is_iteration_length:
  assumes "wf_list L h" and "run E cs L h = Some (L', h')"
  shows "\<exists>vs. elements L' h' = Some vs \<and> unat (size_L L') = length vs"
proof -
  from wf_list_run [OF assms] obtain xs where
    "ring h' (data L') xs" "unat (sz L') = length xs"
    by (auto simp: wf_list_def)
  with elements_ring [of h' L' xs] show ?thesis by (simp add: size_L_def)
qed

subsection \<open>The claims on examples\<close>

theorem size_is_iteration_length_witness:
  "elements (fst int_run) (snd int_run) = Some [3, 9] \<and> size_L (fst int_run) = 2
   \<and> (\<exists>vs. elements (fst int_run) (snd int_run) = Some vs
           \<and> unat (size_L (fst int_run)) = length vs)"
proof -
  let ?cs = "[Push_back 1, Push_front 2, Insert 1 3, Pop_back, Erase 0, Push_back 9]"
  have i: "List_init arena 64 (empty_heap ()) = Some (fst int_l, snd int_l)"
    by (simp add: int_l_def model_defs)
  have r: "run int_elem ?cs (fst int_l) (snd int_l) = Some (fst int_run, snd int_run)"
    by (simp add: int_run_def int_l_def model_defs)
  have e: "elements (fst int_run) (snd int_run) = Some [3, 9]"
    by (simp add: int_run_def int_l_def model_defs elements_def iterate.simps)
  have s: "size_L (fst int_run) = 2"
    by (simp add: int_run_def int_l_def model_defs size_L_def)
  from size_is_iteration_length [OF List_init_wf [OF i] r] e s show ?thesis by blast
qed

theorem insert_atomic_witness:
  "fst (insert_L int_elem 4120 5 (result int_a) (snd int_a)) = Inr 4144
   \<and> ring (snd (snd (insert_L int_elem 4120 5 (result int_a) (snd int_a)))) 64 [4096, 4144, 4120]
   \<and> sz (fst (snd (insert_L int_elem 4120 5 (result int_a) (snd int_a)))) = 3
   \<and> fst (insert_L (Counted 2) 64 () (result counted_e) (snd counted_e))
       = Inl (Exception (thrown 0))
   \<and> fst (snd (insert_L (Counted 2) 64 () (result counted_e) (snd counted_e))) = result counted_e
   \<and> links (snd (snd (insert_L (Counted 2) 64 () (result counted_e) (snd counted_e))))
       = links (snd counted_e)
   \<and> keys (snd (snd (insert_L (Counted 2) 64 () (result counted_e) (snd counted_e))))
       = keys (snd counted_e)
   \<and> trace (snd (snd (insert_L (Counted 2) 64 () (result counted_e) (snd counted_e))))
       = trace (snd counted_e) @ [Allocate 4120, Deallocate 4120]"
proof -
  let ?L = "result int_a" and ?h = "snd int_a"
  let ?r = "insert_L int_elem 4120 5 ?L ?h"
  have d: "data ?L = 64" "sz ?L = 2" by (simp_all add: int_a_def model_defs)
  have rg: "ring ?h (data ?L) ([4096] @ [4120])"
    by (simp add: int_a_def model_defs ring_def)
  have res: "insert_L int_elem (hd ([4120] @ [data ?L])) 5 ?L ?h = (fst ?r, fst (snd ?r), snd (snd ?r))"
    by simp
  have ok: "fst ?r = Inr 4144" by (simp add: int_a_def model_defs)
  let ?M = "result counted_e" and ?g = "snd counted_e"
  let ?q = "insert_L (Counted 2) 64 () ?M ?g"
  have d2: "data ?M = 64" by (simp add: counted_e_def model_defs)
  have rg2: "ring ?g (data ?M) ([4096] @ [])"
    by (simp add: counted_e_def model_defs ring_def)
  have res2: "insert_L (Counted 2) (hd ([] @ [data ?M])) () ?M ?g = (fst ?q, fst (snd ?q), snd (snd ?q))"
    by (simp add: d2)
  have bad: "fst ?q = Inl (Exception (thrown 0))" by (simp add: counted_e_def model_defs)
  have tr: "trace (snd (snd ?q)) = trace ?g @ [Allocate 4120, Deallocate 4120]"
    by (simp add: counted_e_def model_defs)
  from insert_atomic [OF rg res] ok
  have "ring (snd (snd ?r)) (data (fst (snd ?r))) ([4096] @ 4144 # [4120])"
    and "fst (snd ?r) = ?L\<lparr>sz := sz ?L + 1\<rparr>"
    by blast+
  then have A: "ring (snd (snd ?r)) 64 [4096, 4144, 4120]" "sz (fst (snd ?r)) = 3"
    using d by simp_all
  from insert_atomic [OF rg2 res2] bad
  have B: "fst (snd ?q) = ?M" "links (snd (snd ?q)) = links ?g" "keys (snd (snd ?q)) = keys ?g"
    by blast+
  show ?thesis using ok A bad B tr by simp
qed

theorem insert_returns_new_node_witness:
  "fst (insert_L int_elem 4120 5 (result int_a) (snd int_a)) = Inr 4144
   \<and> deref (snd (snd (insert_L int_elem 4120 5 (result int_a) (snd int_a)))) 4144 = Some 5
   \<and> incr (snd (snd (insert_L int_elem 4120 5 (result int_a) (snd int_a)))) 4144 = Some 4120
   \<and> decr (snd (snd (insert_L int_elem 4120 5 (result int_a) (snd int_a)))) 4120 = Some 4144
   \<and> decr (snd (snd (insert_L int_elem 4120 5 (result int_a) (snd int_a)))) 4144 = Some 4096"
proof -
  let ?L = "result int_a" and ?h = "snd int_a"
  let ?r = "insert_L int_elem 4120 5 ?L ?h"
  have d: "data ?L = 64" by (simp add: int_a_def model_defs)
  have rg: "ring ?h (data ?L) ([4096] @ [4120])"
    by (simp add: int_a_def model_defs ring_def)
  have ok: "fst ?r = Inr 4144" by (simp add: int_a_def model_defs)
  have res: "insert_L int_elem (hd ([4120] @ [data ?L])) 5 ?L ?h = (Inr 4144, fst (snd ?r), snd (snd ?r))"
    using ok by (simp add: prod_eq_iff)
  have c: "copy_ctor int_elem 5 (world ?h) = (Inr 5, world ?h)" by (simp add: int_elem_def)
  from insert_returns_new_node [OF rg res] c ok show ?thesis by simp
qed

theorem bulk_constructors_roll_back_witness:
  "fst counted_f = Inl (Exception (thrown 0)) \<and> world (snd counted_f) = 0
   \<and> st_size (mem (snd counted_f)) = 24
   \<and> (\<exists>k<5. unwound arena k (empty_heap 0) (snd counted_f))
   \<and> fst counted_g = Inl (Exception (thrown 0)) \<and> world (snd counted_g) = 0
   \<and> st_size (mem (snd counted_g)) = 24
   \<and> (\<exists>k<5. unwound arena k (empty_heap 0) (snd counted_g))
   \<and> fst (List_copy (Counted 5) (result counted_cd) arena 192 (snd counted_cd))
       = Inl (Exception (thrown 0))
   \<and> world (snd (List_copy (Counted 5) (result counted_cd) arena 192 (snd counted_cd))) = 3
   \<and> st_size (mem (snd counted_cd)) = 72
   \<and> st_size (mem (snd (List_copy (Counted 5) (result counted_cd) arena 192 (snd counted_cd))))
       = 72
   \<and> (\<exists>k. unwound arena k (snd counted_cd)
              (snd (List_copy (Counted 5) (result counted_cd) arena 192 (snd counted_cd))))"
proof -
  let ?c = "List_copy (Counted 5) (result counted_cd) arena 192 (snd counted_cd)"
  have f: "fst counted_f = Inl (Exception (thrown 0))" "world (snd counted_f) = 0"
    "st_size (mem (snd counted_f)) = 24"
    by (simp_all add: counted_f_def model_defs)
  have g: "fst counted_g = Inl (Exception (thrown 0))" "world (snd counted_g) = 0"
    "st_size (mem (snd counted_g)) = 24"
    by (simp_all add: counted_g_def model_defs)
  have c: "fst ?c = Inl (Exception (thrown 0))" "world (snd ?c) = 3"
    "st_size (mem (snd counted_cd)) = 72" "st_size (mem (snd ?c)) = 72"
    by (simp_all add: counted_cd_def counted_c_def model_defs)
  have f': "List_fill (Counted 3) 5 () arena 64 (empty_heap 0) = (Inl (Exception (thrown 0)), snd counted_f)"
    using f(1) by (simp add: counted_f_def prod_eq_iff)
  have g': "List_count (Counted 3) 5 arena 64 (empty_heap 0) = (Inl (Exception (thrown 0)), snd counted_g)"
    using g(1) by (simp add: counted_g_def prod_eq_iff)
  have c': "?c = (Inl (Exception (thrown 0)), snd ?c)" using c(1) by (simp add: prod_eq_iff)
  have u: "unat (5 :: size_t) = 5" by simp
  from bulk_constructors_roll_back
         [of "Counted 3" 5 "()" arena 64 "empty_heap 0" "thrown 0" "snd counted_f"] f'
  have F: "\<exists>k<5. unwound arena k (empty_heap 0) (snd counted_f)" unfolding u by blast
  from bulk_constructors_roll_back
         [of "Counted 3" 5 "()" arena 64 "empty_heap 0" "thrown 0" "snd counted_g"] g'
  have G: "\<exists>k<5. unwound arena k (empty_heap 0) (snd counted_g)" unfolding u by blast
  from bulk_constructors_roll_back
         [of "Counted 5" 0 "()" arena 192 "snd counted_cd" "thrown 0" "snd ?c" "result counted_cd"] c'
  have C: "\<exists>k. unwound arena k (snd counted_cd) (snd ?c)" by blast
  show ?thesis using f g c F G C by simp
qed

theorem copy_assignment_strong_guarantee_witness:
  "fst (operator_assign (Counted 5) (result counted_cd) 192 (result counted_c) (snd counted_cd))
     = Inl (Exception (thrown 0))
   \<and> fst (snd (operator_assign (Counted 5) (result counted_cd) 192 (result counted_c) (snd counted_cd)))
     = result counted_c
   \<and> links (snd (snd (operator_assign (Counted 5) (result counted_cd) 192 (result counted_c) (snd counted_cd))))
     = links (snd counted_cd)
   \<and> keys (snd (snd (operator_assign (Counted 5) (result counted_cd) 192 (result counted_c) (snd counted_cd))))
     = keys (snd counted_cd)
   \<and> world (snd (snd (operator_assign (Counted 5) (result counted_cd) 192 (result counted_c) (snd counted_cd))))
     = 3"
proof -
  let ?r = "operator_assign (Counted 5) (result counted_cd) 192 (result counted_c) (snd counted_cd)"
  have e: "fst ?r = Inl (Exception (thrown 0))" "world (snd (snd ?r)) = 3"
    by (simp_all add: counted_cd_def counted_c_def model_defs)
  then have "?r = (Inl (Exception (thrown 0)), fst (snd ?r), snd (snd ?r))"
    by (simp add: prod_eq_iff)
  from copy_assignment_strong_guarantee [OF this] e show ?thesis by simp
qed

subsection \<open>Copy assignment from or to an empty list\<close>

text \<open>
  C2 (the code where the claim fails). \<open>A = B\<close> for an empty \<open>B\<close>, whatever \<open>A\<close> holds,
  with the temporary at address \<open>r\<close>. The copy of \<open>B\<close> is a sentinel that points to
  itself, so after the swap \<open>data.next\<close> is \<open>&res.data\<close>: the first fix-up writes
  \<open>res.data.prev\<close>, the second \<open>res.data.next\<close> and the third \<open>data.next\<close>. The sentinel of
  \<open>A\<close> ends up pointing at the temporary, both ways, \<open>begin()\<close> is not \<open>end()\<close> although
  \<open>sz\<close> is 0, and the destructor of the temporary, which walks from \<open>res.data.next\<close>, takes
  the sentinel of \<open>A\<close> for a \<open>Node\<close> and destroys it.
\<close>

theorem assign_from_empty_source:
  assumes src: "links h (data src) = Some \<lparr>prev = data src, next = data src\<rparr>"
    and tgt: "links h (data this) = Some b" "keys h (data this) = None"
    and tmp: "links h r = None" "keys h r = None"
  shows "\<exists>L' h'. operator_assign E src r this h = (Inl Undefined, L', h')
           \<and> links h' (data this) = Some \<lparr>prev = r, next = r\<rparr>
           \<and> links h' r = Some \<lparr>prev = data this, next = data this\<rparr>
           \<and> begin_L L' h' = Some r \<and> end_L L' = data this \<and> sz L' = sz (this\<lparr>sz := 0\<rparr>)"
proof -
  have ne: "r \<noteq> data src" "r \<noteq> data this" "data src \<noteq> r" "data this \<noteq> r"
    using src tgt tmp by auto
  show ?thesis
    using src tgt tmp ne
    by (simp add: operator_assign_def List_copy_def List_init_def begin_L_def end_L_def
          copy_loop.simps ctor_guard_def swap_data_def assign_fixups_def set_prev_def set_next_def
          List_dtor_def destroy_def destroy_loop.simps traits_destroy_def Let_def)
qed

text \<open>
  \<open>List<int> a(2, 7); List<int> b; a = b;\<close> with the temporary at 192: the two old nodes of
  \<open>a\<close> are still there, and iterating \<open>a\<close> reads through its \<open>begin()\<close>, which is the
  temporary's sentinel.
\<close>

theorem assign_from_empty_source_witness:
  "fst (operator_assign int_elem (fst int_ab) 192 (result int_a) (snd int_ab)) = Inl Undefined
   \<and> links (snd (snd (operator_assign int_elem (fst int_ab) 192 (result int_a) (snd int_ab)))) 64
       = Some \<lparr>prev = 192, next = 192\<rparr>
   \<and> keys (snd (snd (operator_assign int_elem (fst int_ab) 192 (result int_a) (snd int_ab)))) 4096
       = Some 7
   \<and> size_L (fst (snd (operator_assign int_elem (fst int_ab) 192 (result int_a) (snd int_ab)))) = 0
   \<and> elements (fst (snd (operator_assign int_elem (fst int_ab) 192 (result int_a) (snd int_ab))))
        (snd (snd (operator_assign int_elem (fst int_ab) 192 (result int_a) (snd int_ab))))
       = None"
proof -
  let ?b = "fst int_ab" and ?a = "result int_a" and ?h = "snd int_ab"
  let ?r = "operator_assign int_elem ?b 192 ?a ?h"
  have d: "data ?b = 128" "data ?a = 64" by (simp_all add: int_ab_def int_a_def model_defs)
  have src: "links ?h (data ?b) = Some \<lparr>prev = data ?b, next = data ?b\<rparr>"
    by (simp add: int_ab_def int_a_def model_defs)
  have tgt: "links ?h (data ?a) = Some \<lparr>prev = 4120, next = 4096\<rparr>" "keys ?h (data ?a) = None"
    by (simp_all add: int_ab_def int_a_def model_defs)
  have tmp: "links ?h 192 = None" "keys ?h 192 = None"
    by (simp_all add: int_ab_def int_a_def model_defs)
  have k: "keys (snd (snd ?r)) 4096 = Some 7"
    by (simp add: int_ab_def int_a_def model_defs)
  from assign_from_empty_source [OF src tgt tmp, of int_elem] obtain L' h' where
    R: "?r = (Inl Undefined, L', h')" "links h' (data ?a) = Some \<lparr>prev = 192, next = 192\<rparr>"
    "links h' 192 = Some \<lparr>prev = data ?a, next = data ?a\<rparr>"
    "begin_L L' h' = Some 192" "end_L L' = data ?a" "sz L' = sz (?a\<lparr>sz := 0\<rparr>)"
    by blast
  have "keys (snd (snd ?r)) 192 = None"
    by (simp add: int_ab_def int_a_def model_defs)
  then have kr: "keys h' 192 = None" by (simp add: R(1))
  have "elements L' h' = None"
    by (simp add: elements_def R(4,5) d iterate.simps [of h' 64 192] deref_def kr)
  then show ?thesis using R k by (simp add: d size_L_def)
qed

text \<open>The same happens when the target is the empty list: \<open>b = a\<close>.\<close>

lemma assign_to_empty_target:
  "fst (operator_assign int_elem (result int_a) 192 (fst int_ab) (snd int_ab)) = Inl Undefined
   \<and> incr (snd (snd (operator_assign int_elem (result int_a) 192 (fst int_ab) (snd int_ab)))) 128
       = Some 192"
  by (simp add: int_ab_def int_a_def model_defs)

text \<open>So does assigning the empty list \<open>l\<close> to itself.\<close>

lemma assign_empty_to_itself:
  "fst (operator_assign int_elem (fst int_l) 192 (fst int_l) (snd int_l)) = Inl Undefined"
  by (simp add: int_l_def model_defs)

text \<open>With both lists non-empty the assignment does what the scenario of the specification says.\<close>

lemma assign_scenario:
  "fst (operator_assign int_elem (result int_pq) 192 (result int_p) (snd int_pq)) = Inr ()
   \<and> size_L (fst (snd (operator_assign int_elem (result int_pq) 192 (result int_p) (snd int_pq)))) = 4
   \<and> elements (fst (snd (operator_assign int_elem (result int_pq) 192 (result int_p) (snd int_pq))))
        (snd (snd (operator_assign int_elem (result int_pq) 192 (result int_p) (snd int_pq))))
       = Some [2, 2, 2, 2]"
  by (simp add: int_pq_def int_p_def model_defs size_L_def elements_def iterate.simps)

end
